theory Spec2Isabelle
  imports
    Main
    "HOL-Library.Log_Nat"
    "HOL-Library.Multiset"
    "HOL-Library.Char_ord"
    "HOL-Library.List_Lexorder"
begin

section \<open>Python values used by the inspector\<close>

subsection \<open>Exceptions\<close>

text \<open>
  The exceptions that can occur in \<^verbatim>\<open>code_quality_inspector.py\<close>: the two arithmetic
  ones of Python's numbers, and \<open>Exception msg\<close> for any other instance of Python's
  \<^verbatim>\<open>Exception\<close> raised by a collaborator (radon, GitPython, the clock, the standard
  output), with its message.
\<close>

datatype exn = ZeroDivisionError | OverflowError | IndexError | Exception string

fun str_of_exn :: "exn \<Rightarrow> string" where
  "str_of_exn ZeroDivisionError = ''float division by zero''"
| "str_of_exn OverflowError = ''integer division result too large for a float''"
| "str_of_exn IndexError = ''list index out of range''"
| "str_of_exn (Exception msg) = msg"

definition ebind :: "exn + 'a \<Rightarrow> ('a \<Rightarrow> exn + 'b) \<Rightarrow> exn + 'b" where
  "ebind r f = (case r of Inl e \<Rightarrow> Inl e | Inr v \<Rightarrow> f v)"

subsection \<open>Floats: IEEE 754 binary64, round to nearest, ties to even\<close>

text \<open>
  Every finite double is an integer multiple of \<open>2 ^ -1074\<close>, the smallest subnormal.
  \<open>Finite k\<close> is the double of value \<open>k * 2 ^ -1074\<close>; the two zeros are identified, as
  Python's \<^verbatim>\<open>==\<close> does, and so are the NaNs. A double has at most 53 significant bits and
  is below \<open>2 ^ 1024\<close>, which is \<open>MAXK\<close> in these units.
\<close>

datatype pyfloat = Finite int | PosInf | NegInf | NaN

definition SCALE :: int where
  "SCALE = 2 ^ 1074"

definition MAXK :: int where
  "MAXK = 2 ^ 2098"

text \<open>\<open>rhe_div a b\<close>: the quotient \<open>a / b\<close> (\<open>0 \<le> a\<close>, \<open>0 < b\<close>) rounded to the nearest
  integer, a tie to the even one.\<close>

definition rhe_div :: "int \<Rightarrow> int \<Rightarrow> int" where
  "rhe_div a b =
     (let q = a div b; r = a mod b
      in if 2 * r < b then q else if b < 2 * r then q + 1
         else if even q then q else q + 1)"

text \<open>\<open>round_mag n d\<close>: the magnitude \<open>n / d\<close> (in units of \<open>2 ^ -1074\<close>) rounded to 53
  significant bits; below \<open>2 ^ 53\<close> units the spacing of the doubles is one unit.\<close>

definition round_mag :: "int \<Rightarrow> int \<Rightarrow> int" where
  "round_mag n d =
     (let q = n div d
      in if q < 2 ^ 53 then rhe_div n d
         else let s = nat (bitlen q - 53) in rhe_div n (d * 2 ^ s) * 2 ^ s)"

definition round_double :: "int \<Rightarrow> int \<Rightarrow> pyfloat" where
  "round_double n d =
     (let k = round_mag \<bar>n\<bar> d
      in if MAXK \<le> k then (if n < 0 then NegInf else PosInf)
         else Finite (if n < 0 then - k else k))"

text \<open>\<open>dbl m e\<close> is the double of value \<open>m * 2 ^ e\<close>, for \<open>- 1074 \<le> e\<close>: Python's
  \<^verbatim>\<open>1.5\<close> is \<open>dbl 3 (- 1)\<close>, and the float of a small integer \<open>n\<close> is \<open>dbl n 0\<close>.\<close>

definition dbl :: "int \<Rightarrow> int \<Rightarrow> pyfloat" where
  "dbl m e = Finite (m * 2 ^ nat (e + 1074))"

definition emin :: nat where
  "emin = 1074"

text \<open>The values of \<open>pyfloat\<close> that are doubles: rounding leaves them as they are.\<close>

definition is_double :: "pyfloat \<Rightarrow> bool" where
  "is_double x = (case x of Finite k \<Rightarrow> round_double k 1 = Finite k | _ \<Rightarrow> True)"

fun fneg :: "pyfloat \<Rightarrow> pyfloat" where
  "fneg (Finite a) = Finite (- a)"
| "fneg PosInf = NegInf"
| "fneg NegInf = PosInf"
| "fneg NaN = NaN"

fun is_neg :: "pyfloat \<Rightarrow> bool" where
  "is_neg (Finite a) = (a < 0)"
| "is_neg NegInf = True"
| "is_neg PosInf = False"
| "is_neg NaN = False"

fun fadd :: "pyfloat \<Rightarrow> pyfloat \<Rightarrow> pyfloat" where
  "fadd (Finite a) (Finite b) = round_double (a + b) 1"
| "fadd NaN y = NaN"
| "fadd x NaN = NaN"
| "fadd PosInf NegInf = NaN"
| "fadd NegInf PosInf = NaN"
| "fadd PosInf y = PosInf"
| "fadd NegInf y = NegInf"
| "fadd x PosInf = PosInf"
| "fadd x NegInf = NegInf"

fun fmul :: "pyfloat \<Rightarrow> pyfloat \<Rightarrow> pyfloat" where
  "fmul (Finite a) (Finite b) = round_double (a * b) SCALE"
| "fmul NaN y = NaN"
| "fmul x NaN = NaN"
| "fmul x y =
     (if x = Finite 0 \<or> y = Finite 0 then NaN
      else if is_neg x = is_neg y then PosInf else NegInf)"

text \<open>Python raises on a zero divisor before anything else.\<close>

fun fdiv :: "pyfloat \<Rightarrow> pyfloat \<Rightarrow> exn + pyfloat" where
  "fdiv x (Finite b) =
     (if b = 0 then Inl ZeroDivisionError
      else case x of
        Finite a \<Rightarrow> Inr (round_double (if b < 0 then - (a * SCALE) else a * SCALE) \<bar>b\<bar>)
      | NaN \<Rightarrow> Inr NaN
      | _ \<Rightarrow> Inr (if is_neg x = (b < 0) then PosInf else NegInf))"
| "fdiv x NaN = Inr NaN"
| "fdiv (Finite a) y = Inr (Finite 0)"
| "fdiv x y = Inr NaN"

subsection \<open>Numbers: \<^verbatim>\<open>int\<close> and \<^verbatim>\<open>float\<close>, with Python's mixed arithmetic\<close>

datatype pynum = PyInt int | PyFloat pyfloat

text \<open>Conversion of an \<^verbatim>\<open>int\<close> to \<^verbatim>\<open>float\<close> rounds correctly and raises when the
  result is out of range.\<close>

definition float_of_int :: "int \<Rightarrow> exn + pyfloat" where
  "float_of_int n =
     (case round_double (n * SCALE) 1 of
        Finite k \<Rightarrow> Inr (Finite k)
      | _ \<Rightarrow> Inl OverflowError)"

fun as_float :: "pynum \<Rightarrow> exn + pyfloat" where
  "as_float (PyInt n) = float_of_int n"
| "as_float (PyFloat x) = Inr x"

fun py_mul :: "pynum \<Rightarrow> pynum \<Rightarrow> exn + pynum" where
  "py_mul (PyInt a) (PyInt b) = Inr (PyInt (a * b))"
| "py_mul x y =
     ebind (as_float x) (\<lambda>a. ebind (as_float y) (\<lambda>b. Inr (PyFloat (fmul a b))))"

fun py_add :: "pynum \<Rightarrow> pynum \<Rightarrow> exn + pynum" where
  "py_add (PyInt a) (PyInt b) = Inr (PyInt (a + b))"
| "py_add x y =
     ebind (as_float x) (\<lambda>a. ebind (as_float y) (\<lambda>b. Inr (PyFloat (fadd a b))))"

text \<open>True division \<^verbatim>\<open>/\<close>: two ints divide exactly and round once.\<close>

fun py_truediv :: "pynum \<Rightarrow> pynum \<Rightarrow> exn + pynum" where
  "py_truediv (PyInt a) (PyInt b) =
     (if b = 0 then Inl ZeroDivisionError
      else case round_double (if b < 0 then - (a * SCALE) else a * SCALE) \<bar>b\<bar> of
        Finite k \<Rightarrow> Inr (PyFloat (Finite k))
      | _ \<Rightarrow> Inl OverflowError)"
| "py_truediv x y =
     ebind (as_float x) (\<lambda>a. ebind (as_float y) (\<lambda>b.
       ebind (fdiv a b) (\<lambda>q. Inr (PyFloat q))))"

text \<open>\<^verbatim>\<open>try: body except Exception as err: handler\<close>. Every value of \<open>exn\<close> is an
  instance of \<^verbatim>\<open>Exception\<close>, so the handler takes them all.\<close>

definition try_except :: "exn + 'a \<Rightarrow> (exn \<Rightarrow> exn + 'a) \<Rightarrow> exn + 'a" where
  "try_except body handler = (case body of Inl err \<Rightarrow> handler err | Inr v \<Rightarrow> Inr v)"

text \<open>A \<^verbatim>\<open>for\<close> loop over a list whose body may raise.\<close>

fun efold :: "('a \<Rightarrow> 's \<Rightarrow> exn + 's) \<Rightarrow> 'a list \<Rightarrow> 's \<Rightarrow> exn + 's" where
  "efold f [] s = Inr s"
| "efold f (x # xs) s = ebind (f x s) (efold f xs)"

subsection \<open>\<^verbatim>\<open>statistics.mean\<close> on ints\<close>

text \<open>The mean is computed exactly; it is returned as an \<^verbatim>\<open>int\<close> when it is one and
  as the nearest \<^verbatim>\<open>float\<close> otherwise.\<close>

definition mean :: "int list \<Rightarrow> exn + pynum" where
  "mean xs =
     (if xs = [] then Inl (Exception ''mean requires at least one data point'')
      else let t = sum_list xs; n = int (length xs)
           in if t mod n = 0 then Inr (PyInt (t div n))
              else py_truediv (PyInt t) (PyInt n))"

subsection \<open>Strings and dictionaries\<close>

definition endswith :: "string \<Rightarrow> string \<Rightarrow> bool" where
  "endswith s suffix = (length suffix \<le> length s \<and> drop (length s - length suffix) s = suffix)"

definition rfind :: "string \<Rightarrow> char \<Rightarrow> int" where
  "rfind s c = (case filter (\<lambda>i. s ! i = c) (rev [0..<length s]) of [] \<Rightarrow> - 1 | i # _ \<Rightarrow> int i)"

text \<open>\<^verbatim>\<open>os.path.splitext(p)[0]\<close> (POSIX): the extension starts at the last dot, provided
  that dot comes after the last separator and after a character of the name that is not
  a dot.\<close>

definition splitext_root :: "string \<Rightarrow> string" where
  "splitext_root p =
     (let sepIndex = rfind p CHR ''/''; dotIndex = rfind p CHR ''.''
      in if sepIndex < dotIndex \<and>
            filter (\<lambda>ch. ch \<noteq> CHR ''.'')
              (take (nat dotIndex - nat (sepIndex + 1)) (drop (nat (sepIndex + 1)) p)) \<noteq> []
         then take (nat dotIndex) p else p)"

text \<open>A \<^verbatim>\<open>defaultdict(list)\<close>, with the insertion order of its keys:
  \<^verbatim>\<open>d[k].append(v)\<close> and \<^verbatim>\<open>d[k]\<close>.\<close>

fun dd_append :: "'k \<Rightarrow> 'v \<Rightarrow> ('k \<times> 'v list) list \<Rightarrow> ('k \<times> 'v list) list" where
  "dd_append k v [] = [(k, [v])]"
| "dd_append k v ((k', vs) # d) =
     (if k = k' then (k', vs @ [v]) # d else (k', vs) # dd_append k v d)"

definition dd_get :: "('k \<times> 'v list) list \<Rightarrow> 'k \<Rightarrow> 'v list" where
  "dd_get d k = (case map_of d k of None \<Rightarrow> [] | Some vs \<Rightarrow> vs)"

text \<open>\<^verbatim>\<open>sorted(xs, reverse=True)\<close>: a stable sort with every comparison reversed. Strings
  compare lexicographically by character code.\<close>

definition sorted_reverse :: "string list \<Rightarrow> string list" where
  "sorted_reverse xs = rev (sort (rev xs))"

section \<open>The metric dictionaries\<close>

text \<open>
  A sample is the dictionary that \<^verbatim>\<open>_calculate_metrics\<close> returns; the history walk adds
  the key \<^verbatim>\<open>Date\<close> to it and \<^verbatim>\<open>_generate_project_metrics_by_file\<close> the key
  \<^verbatim>\<open>File\<close>. \<^verbatim>\<open>Lines_of_Code\<close> is radon's count of lines.
\<close>

record sample =
  Ciclomatic_Complexity :: pynum
  Maintainability :: pynum
  Lines_of_Code :: nat

record dated_sample = sample +
  Date :: string

record file_sample = dated_sample +
  File :: string

definition set_Date :: "sample \<Rightarrow> string \<Rightarrow> dated_sample" where
  "set_Date m d =
     \<lparr>Ciclomatic_Complexity = Ciclomatic_Complexity m, Maintainability = Maintainability m,
      Lines_of_Code = Lines_of_Code m, Date = d\<rparr>"

definition set_File :: "dated_sample \<Rightarrow> string \<Rightarrow> file_sample" where
  "set_File m f =
     \<lparr>Ciclomatic_Complexity = Ciclomatic_Complexity m, Maintainability = Maintainability m,
      Lines_of_Code = Lines_of_Code m, Date = Date m, File = f\<rparr>"

definition zero_sample :: sample where
  "zero_sample = \<lparr>Ciclomatic_Complexity = PyInt 0, Maintainability = PyInt 0, Lines_of_Code = 0\<rparr>"

section \<open>The weighted aggregate\<close>

text \<open>
  Lines 90--106 (\<^verbatim>\<open>_generate_history_metrics\<close>, over the samples of one date) and lines
  126--142 (\<^verbatim>\<open>_generate_project_metrics\<close>, over \<^verbatim>\<open>self._metrics_by_file\<close>) are the same
  statements. \<open>accumulate\<close> is the body of the loop on the three running totals,
  \<open>weighted_totals\<close> the loop, and \<open>aggregate\<close> the loop from \<^verbatim>\<open>0.0, 0.0, 0\<close> followed by
  the two guarded divisions.
\<close>

type_synonym totals = "pynum \<times> pynum \<times> nat"

definition accumulate :: "'a sample_scheme \<Rightarrow> totals \<Rightarrow> exn + totals" where
  "accumulate metrics acc =
     (case acc of (total_ciclomatic, total_maintainability, total_loc) \<Rightarrow>
        ebind (py_mul (Ciclomatic_Complexity metrics) (PyInt (int (Lines_of_Code metrics))))
          (\<lambda>p. ebind (py_add total_ciclomatic p)
          (\<lambda>total_ciclomatic'.
        ebind (py_mul (Maintainability metrics) (PyInt (int (Lines_of_Code metrics))))
          (\<lambda>p. ebind (py_add total_maintainability p)
          (\<lambda>total_maintainability'.
        Inr (total_ciclomatic', total_maintainability', total_loc + Lines_of_Code metrics))))))"

definition weighted_totals :: "'a sample_scheme list \<Rightarrow> totals \<Rightarrow> exn + totals" where
  "weighted_totals ms acc = efold accumulate ms acc"

definition weighted_avg :: "pynum \<Rightarrow> nat \<Rightarrow> exn + pynum" where
  "weighted_avg total_x total_loc =
     (if total_loc \<noteq> 0 then py_truediv total_x (PyInt (int total_loc)) else Inr (PyInt 0))"

definition aggregate :: "'a sample_scheme list \<Rightarrow> exn + sample" where
  "aggregate ms =
     ebind (weighted_totals ms (PyFloat (Finite 0), PyFloat (Finite 0), 0))
       (\<lambda>(total_ciclomatic, total_maintainability, total_loc).
     ebind (weighted_avg total_ciclomatic total_loc) (\<lambda>weighted_avg_ciclomatic.
     ebind (weighted_avg total_maintainability total_loc) (\<lambda>weighted_avg_maintainability.
     Inr \<lparr>Ciclomatic_Complexity = weighted_avg_ciclomatic,
          Maintainability = weighted_avg_maintainability,
          Lines_of_Code = total_loc\<rparr>)))"

subsection \<open>The aggregate as the specification words it\<close>

text \<open>
  \<open>weighted_sum x ms acc\<close> is the sum of \<open>x m * Lines_of_Code m\<close> over the samples, added
  in the order of the list to \<open>acc\<close>, and \<open>weighted_mean x ms\<close> that sum from \<^verbatim>\<open>0.0\<close>
  divided by the total of the lines of code, all in Python's arithmetic.
\<close>

fun weighted_sum :: "('a sample_scheme \<Rightarrow> pynum) \<Rightarrow> 'a sample_scheme list \<Rightarrow> pynum \<Rightarrow> exn + pynum" where
  "weighted_sum x [] acc = Inr acc"
| "weighted_sum x (m # ms) acc =
     ebind (ebind (py_mul (x m) (PyInt (int (Lines_of_Code m)))) (py_add acc))
       (weighted_sum x ms)"

definition weighted_mean :: "('a sample_scheme \<Rightarrow> pynum) \<Rightarrow> 'a sample_scheme list \<Rightarrow> exn + pynum" where
  "weighted_mean x ms =
     ebind (weighted_sum x ms (PyFloat (Finite 0)))
       (\<lambda>t. py_truediv t (PyInt (int (sum_list (map Lines_of_Code ms)))))"

text \<open>\<open>double_totals\<close>: the two running sums are floats, and doubles.\<close>

fun double_totals :: "totals \<Rightarrow> bool" where
  "double_totals (PyFloat a, PyFloat b, l) = (is_double a \<and> is_double b)"
| "double_totals _ = False"

text \<open>\<open>int_valued v n\<close>: the number \<open>v\<close> is the integer \<open>n\<close>, as an \<^verbatim>\<open>int\<close> or as the
  \<^verbatim>\<open>float\<close> of that value.\<close>

fun int_valued :: "pynum \<Rightarrow> int \<Rightarrow> bool" where
  "int_valued (PyInt a) n = (a = n)"
| "int_valued (PyFloat x) n = (x = dbl n 0)"

text \<open>\<open>product_as_float v l\<close> is what the loop adds to a running sum for a metric \<open>v\<close> and
  \<open>l\<close> lines: the product, converted to \<^verbatim>\<open>float\<close>. \<open>fits v l\<close> keeps the product of an
  \<^verbatim>\<open>int\<close> metric within the integers that a double holds exactly.\<close>

definition product_as_float :: "pynum \<Rightarrow> nat \<Rightarrow> exn + pyfloat" where
  "product_as_float v l = ebind (py_mul v (PyInt (int l))) as_float"

fun fits :: "pynum \<Rightarrow> nat \<Rightarrow> bool" where
  "fits (PyInt a) l = (\<bar>a * int l\<bar> \<le> 2 ^ 53)"
| "fits (PyFloat x) l = True"

section \<open>The collaborators: radon, GitPython, the clock, the standard output\<close>

text \<open>
  radon's three entry points take the text of a file and may raise. \<open>cc_visit\<close> gives the
  complexities of the blocks it finds, \<open>mi_visit\<close> (with its \<^verbatim>\<open>multi\<close> flag) the
  maintainability index, and \<open>analyze\<close> the raw counts, of which only \<^verbatim>\<open>loc\<close> is read.
\<close>

record raw_module =
  loc :: nat

record analysis =
  cc_visit :: "string \<Rightarrow> exn + int list"
  mi_visit :: "string \<Rightarrow> bool \<Rightarrow> exn + pynum"
  analyze :: "string \<Rightarrow> exn + raw_module"

text \<open>
  A repository is the log of its commits, newest first, and the command
  \<^verbatim>\<open>git show <commit>:<path>\<close>, which may raise. A commit has its hash, its commit time in
  seconds and the entries that \<^verbatim>\<open>commit.tree.traverse()\<close> yields.
\<close>

record tree_item =
  item_type :: string
  item_path :: string
  item_name :: string

record commit =
  hexsha :: string
  committed_date :: int
  tree_traverse :: "tree_item list"

record repo =
  commit_log :: "commit list"
  git_show :: "string \<Rightarrow> exn + string"

text \<open>
  \<^verbatim>\<open>repo.iter_commits(max_count=n)\<close> starts from the commit of \<^verbatim>\<open>HEAD\<close>: on a repository
  without commits it raises \<^verbatim>\<open>ValueError\<close>. Otherwise it yields \<open>rev_list\<close>, the log, cut
  after \<open>n\<close> commits when \<open>n\<close> is given.
\<close>

definition rev_list :: "repo \<Rightarrow> int option \<Rightarrow> commit list" where
  "rev_list r max_count =
     (case max_count of None \<Rightarrow> commit_log r | Some n \<Rightarrow> take (nat n) (commit_log r))"

definition iter_commits :: "repo \<Rightarrow> int option \<Rightarrow> exn + commit list" where
  "iter_commits r max_count =
     (if commit_log r = [] then Inl (Exception ''Reference at HEAD does not exist'')
      else Inr (rev_list r max_count))"

text \<open>
  \<^verbatim>\<open>datetime.fromtimestamp(t)\<close> is the local date and time of the instant \<open>t\<close>, which
  depends on the time zone of the machine, and it raises for an instant out of the range of
  the platform; \<open>strftime\<close> is its
  \<^verbatim>\<open>strftime("%Y-%m-%d %H:%M:%S")\<close>, every field in decimal and padded with zeros to its
  width (for the years from 1000 on, which have four digits). \<open>before a b\<close> is the order
  of two dates by their fields.
\<close>

record datetime =
  year :: nat
  month :: nat
  day :: nat
  hour :: nat
  minute :: nat
  second :: nat

definition digit :: "nat \<Rightarrow> char" where
  "digit n = char_of (48 + n)"

definition digits2 :: "nat \<Rightarrow> string" where
  "digits2 n = [digit (n div 10 mod 10), digit (n mod 10)]"

definition digits4 :: "nat \<Rightarrow> string" where
  "digits4 n = digits2 (n div 100) @ digits2 (n mod 100)"

definition strftime :: "datetime \<Rightarrow> string" where
  "strftime d =
     digits4 (year d) @ ''-'' @ digits2 (month d) @ ''-'' @ digits2 (day d) @ '' '' @
     digits2 (hour d) @ '':'' @ digits2 (minute d) @ '':'' @ digits2 (second d)"

definition date_fields :: "datetime \<Rightarrow> nat list" where
  "date_fields d = [year d, month d, day d, hour d, minute d, second d]"

definition before :: "datetime \<Rightarrow> datetime \<Rightarrow> bool" where
  "before a b = (date_fields a < date_fields b)"

definition four_digit_year :: "datetime \<Rightarrow> bool" where
  "four_digit_year d =
     (1000 \<le> year d \<and> year d < 10000 \<and> month d < 100 \<and> day d < 100 \<and> hour d < 100 \<and>
      minute d < 100 \<and> second d < 100)"

text \<open>\<^verbatim>\<open>print\<close> writes a line to the standard output, and raises when the stream does not
  take it (\<^verbatim>\<open>UnicodeEncodeError\<close> for a character that its encoding does not have).\<close>

record env =
  git_Repo :: "string \<Rightarrow> exn + repo"
  radon :: analysis
  fromtimestamp :: "int \<Rightarrow> exn + datetime"
  print :: "string \<Rightarrow> exn + unit"

section \<open>\<^verbatim>\<open>CodeQualityInspector\<close>\<close>

text \<open>The four accumulators of the object, and what it has printed.\<close>

record inspector =
  project_directory :: string
  metrics :: "sample list"
  metrics_by_file :: "file_sample list"
  history_metrics :: "dated_sample list"
  history_metrics_by_file :: "(string \<times> dated_sample list) list"
  printed :: "string list"

definition init :: "string \<Rightarrow> inspector" where
  "init dir =
     \<lparr>project_directory = dir, metrics = [], metrics_by_file = [], history_metrics = [],
      history_metrics_by_file = [], printed = []\<rparr>"

subsection \<open>\<^verbatim>\<open>_calculate_metrics\<close>\<close>

text \<open>\<open>extraction\<close> is the body of the \<^verbatim>\<open>try\<close>. The handler prints the diagnostic with
  \<open>pr\<close>, the \<^verbatim>\<open>print\<close> of the environment, before it sets the three values to 0: an
  exception raised by this call leaves the function. The function returns the dictionary
  and the lines it printed.\<close>

definition extraction :: "analysis \<Rightarrow> string \<Rightarrow> exn + (pynum \<times> pynum \<times> nat)" where
  "extraction a file_content =
     ebind (cc_visit a file_content) (\<lambda>cyclomatic_complexity_visit.
     ebind (if length cyclomatic_complexity_visit \<noteq> 0 then mean cyclomatic_complexity_visit
            else Inr (PyInt 0)) (\<lambda>cyclomatic_complexity.
     ebind (mi_visit a file_content True) (\<lambda>maintainability.
     ebind (analyze a file_content) (\<lambda>raw.
     Inr (cyclomatic_complexity, maintainability, loc raw)))))"

definition diagnostic :: "string \<Rightarrow> exn \<Rightarrow> string" where
  "diagnostic file_name err = ''Error in '' @ file_name @ '': '' @ str_of_exn err"

definition calculate_metrics ::
  "analysis \<Rightarrow> (string \<Rightarrow> exn + unit) \<Rightarrow> string \<Rightarrow> string \<Rightarrow> exn + (sample \<times> string list)" where
  "calculate_metrics a pr file_content file_name =
     ebind
       (try_except
          (ebind (extraction a file_content) (\<lambda>r. Inr (r, [])))
          (\<lambda>err. ebind (pr (diagnostic file_name err)) (\<lambda>_.
             Inr ((PyInt 0, PyInt 0, 0), [diagnostic file_name err]))))
       (\<lambda>((cyclomatic_complexity, maintainability, num_lines_of_code), out).
          Inr (\<lparr>Ciclomatic_Complexity = cyclomatic_complexity,
                Maintainability = maintainability,
                Lines_of_Code = num_lines_of_code\<rparr>, out))"

subsection \<open>\<^verbatim>\<open>_generate_history_metrics_by_file\<close>\<close>

type_synonym file_history = "(string \<times> dated_sample list) list"

text \<open>\<open>qualifies\<close> is the test of line 62, \<open>visit_item\<close> the body of the inner loop on
  the dictionary built so far and the lines printed so far.\<close>

definition qualifies :: "tree_item \<Rightarrow> bool" where
  "qualifies item = (item_type item = ''blob'' \<and> endswith (item_path item) ''.py'')"

definition visit_item ::
  "env \<Rightarrow> repo \<Rightarrow> commit \<Rightarrow> tree_item \<Rightarrow> file_history \<times> string list
     \<Rightarrow> exn + file_history \<times> string list" where
  "visit_item E r c item st =
     (if qualifies item then
        ebind (fromtimestamp E (committed_date c)) (\<lambda>d.
        let file_date = strftime d;
            file_name = splitext_root (item_name item)
        in ebind (git_show r (hexsha c @ '':'' @ item_path item)) (\<lambda>file_content.
             if length file_content = 0 \<or> file_name = ''__init__'' then Inr st
             else ebind (calculate_metrics (radon E) (print E) file_content file_name) (\<lambda>(m, out).
                    Inr (dd_append file_name (set_Date m file_date) (fst st), snd st @ out))))
      else Inr st)"

definition generate_history_metrics_by_file ::
  "env \<Rightarrow> string \<Rightarrow> int option \<Rightarrow> exn + file_history \<times> string list" where
  "generate_history_metrics_by_file E dir max_count =
     ebind (git_Repo E dir) (\<lambda>r.
     ebind (iter_commits r max_count) (\<lambda>commits.
       efold (\<lambda>c. efold (visit_item E r c) (tree_traverse c)) commits ([], [])))"

subsection \<open>\<^verbatim>\<open>_generate_history_metrics\<close>\<close>

definition group_by_date :: "file_history \<Rightarrow> (string \<times> dated_sample list) list" where
  "group_by_date h =
     fold (\<lambda>metrics_by_file. fold (\<lambda>m. dd_append (Date m) m) metrics_by_file) (map snd h) []"

text \<open>\<open>date_row\<close> is the body of the loop over the sorted dates (lines 89--115).\<close>

definition date_row ::
  "(string \<times> dated_sample list) list \<Rightarrow> string \<Rightarrow> inspector \<Rightarrow> exn + inspector" where
  "date_row metrics_by_date date s =
     ebind (aggregate (dd_get metrics_by_date date)) (\<lambda>agg.
       Inr (s\<lparr>history_metrics := history_metrics s @ [set_Date agg date]\<rparr>))"

definition generate_history_metrics :: "inspector \<Rightarrow> exn + inspector" where
  "generate_history_metrics s =
     (let metrics_by_date = group_by_date (history_metrics_by_file s);
          sorted_dates = sorted_reverse (map fst metrics_by_date)
      in efold (date_row metrics_by_date) sorted_dates s)"

subsection \<open>\<^verbatim>\<open>_generate_project_metrics_by_file\<close> and \<^verbatim>\<open>_generate_project_metrics\<close>\<close>

definition first_with_File :: "string \<times> dated_sample list \<Rightarrow> exn + file_sample" where
  "first_with_File kv =
     (case kv of (file_name, file_metrics) \<Rightarrow>
        (case file_metrics of [] \<Rightarrow> Inl IndexError | m # _ \<Rightarrow> Inr (set_File m file_name)))"

definition file_row :: "string \<times> dated_sample list \<Rightarrow> inspector \<Rightarrow> exn + inspector" where
  "file_row kv s =
     ebind (first_with_File kv) (\<lambda>m. Inr (s\<lparr>metrics_by_file := metrics_by_file s @ [m]\<rparr>))"

definition generate_project_metrics_by_file :: "env \<Rightarrow> inspector \<Rightarrow> exn + inspector" where
  "generate_project_metrics_by_file E s =
     ebind (generate_history_metrics_by_file E (project_directory s) (Some 1)) (\<lambda>(h, out).
       efold file_row h (s\<lparr>printed := printed s @ out\<rparr>))"

definition generate_project_metrics :: "inspector \<Rightarrow> exn + inspector" where
  "generate_project_metrics s =
     ebind (aggregate (metrics_by_file s)) (\<lambda>agg. Inr (s\<lparr>metrics := metrics s @ [agg]\<rparr>))"

subsection \<open>\<^verbatim>\<open>inspect_project\<close>\<close>

definition inspect_project :: "env \<Rightarrow> bool \<Rightarrow> int \<Rightarrow> inspector \<Rightarrow> exn + inspector" where
  "inspect_project E inspect_history max_history_count s =
     ebind (generate_project_metrics_by_file E s) (\<lambda>s.
     ebind (generate_project_metrics s) (\<lambda>s.
       if inspect_history then
         let max_count = (if max_history_count > 0 then Some max_history_count else None)
         in ebind (generate_history_metrics_by_file E (project_directory s) max_count)
              (\<lambda>(h, out).
                 generate_history_metrics
                   (s\<lparr>history_metrics_by_file := h, printed := printed s @ out\<rparr>))
       else Inr s))"

text \<open>Successive calls on one object; each call has its own arguments and sees the
  repository as it is at that moment.\<close>

fun inspect_calls :: "(env \<times> bool \<times> int) list \<Rightarrow> inspector \<Rightarrow> exn + inspector" where
  "inspect_calls [] s = Inr s"
| "inspect_calls ((E, inspect_history, max_history_count) # calls) s =
     ebind (inspect_project E inspect_history max_history_count s) (inspect_calls calls)"

section \<open>What the walk and the grouping compute\<close>

text \<open>
  The definitions of this section state, without dictionaries or exceptions, what the
  methods above are then proved to compute.

  \<open>measured a content\<close> is the sample of one file; \<open>contribution E r c item\<close> is
  what one tree entry of one commit adds to the history: nothing, or one dated sample
  under the stem of its name; \<open>contributions\<close> lists them for the commits that are walked,
  in the order of the walk.
\<close>

definition measured :: "analysis \<Rightarrow> string \<Rightarrow> sample" where
  "measured a file_content =
     (case extraction a file_content of
        Inl err \<Rightarrow> zero_sample
      | Inr (c, m, n) \<Rightarrow>
          \<lparr>Ciclomatic_Complexity = c, Maintainability = m, Lines_of_Code = n\<rparr>)"

definition file_stem :: "tree_item \<Rightarrow> string" where
  "file_stem item = splitext_root (item_name item)"

definition content_at :: "repo \<Rightarrow> commit \<Rightarrow> tree_item \<Rightarrow> exn + string" where
  "content_at r c item = git_show r (hexsha c @ '':'' @ item_path item)"

definition contribution :: "env \<Rightarrow> repo \<Rightarrow> commit \<Rightarrow> tree_item \<Rightarrow> (string \<times> dated_sample) list" where
  "contribution E r c item =
     (if qualifies item then
        (case fromtimestamp E (committed_date c) of
           Inl e \<Rightarrow> []
         | Inr d \<Rightarrow>
             (case content_at r c item of
                Inl e \<Rightarrow> []
              | Inr file_content \<Rightarrow>
                  if file_content = [] \<or> file_stem item = ''__init__'' then []
                  else [(file_stem item, set_Date (measured (radon E) file_content) (strftime d))]))
      else [])"

definition contributions :: "env \<Rightarrow> repo \<Rightarrow> int option \<Rightarrow> (string \<times> dated_sample) list" where
  "contributions E r max_count =
     concat (map (\<lambda>c. concat (map (contribution E r c) (tree_traverse c)))
       (rev_list r max_count))"

text \<open>\<open>reads_succeed\<close>: \<^verbatim>\<open>git show\<close> answers for every entry that the walk asks about.\<close>

definition reads_succeed :: "repo \<Rightarrow> int option \<Rightarrow> bool" where
  "reads_succeed r max_count =
     list_all (\<lambda>c. list_all (\<lambda>item. qualifies item \<longrightarrow> \<not> isl (content_at r c item))
                  (tree_traverse c))
       (rev_list r max_count)"

text \<open>
  \<open>item_succeeds E r c item\<close>: every call that the walk makes for this entry answers. For
  a blob whose path ends in \<^verbatim>\<open>.py\<close> these are \<^verbatim>\<open>fromtimestamp\<close>, \<^verbatim>\<open>git show\<close> and, when
  the content is not empty, the stem is not \<^verbatim>\<open>__init__\<close> and radon fails on the content,
  the \<^verbatim>\<open>print\<close> of the diagnostic. \<open>walk_succeeds\<close>: the repository has a commit, and this
  holds for every entry of every commit that is walked.
\<close>

definition item_succeeds :: "env \<Rightarrow> repo \<Rightarrow> commit \<Rightarrow> tree_item \<Rightarrow> bool" where
  "item_succeeds E r c item =
     (qualifies item \<longrightarrow>
        \<not> isl (fromtimestamp E (committed_date c)) \<and>
        (case content_at r c item of
           Inl e \<Rightarrow> False
         | Inr file_content \<Rightarrow>
             file_content = [] \<or> file_stem item = ''__init__'' \<or>
             (case extraction (radon E) file_content of
                Inl err \<Rightarrow> \<not> isl (print E (diagnostic (file_stem item) err))
              | Inr v \<Rightarrow> True)))"

definition walk_succeeds :: "env \<Rightarrow> repo \<Rightarrow> int option \<Rightarrow> bool" where
  "walk_succeeds E r max_count =
     (commit_log r \<noteq> [] \<and>
      list_all (\<lambda>c. list_all (item_succeeds E r c) (tree_traverse c)) (rev_list r max_count))"

text \<open>\<open>add_pairs\<close> files pairs of a key and a value into a dictionary of lists, one after
  the other; \<open>group_pairs\<close> starts from the empty dictionary.\<close>

definition add_pairs :: "('k \<times> 'v) list \<Rightarrow> ('k \<times> 'v list) list \<Rightarrow> ('k \<times> 'v list) list" where
  "add_pairs kvs d = fold (\<lambda>kv. dd_append (fst kv) (snd kv)) kvs d"

definition group_pairs :: "('k \<times> 'v) list \<Rightarrow> ('k \<times> 'v list) list" where
  "group_pairs kvs = add_pairs kvs []"

text \<open>The sample of a row, without its date.\<close>

definition drop_Date :: "dated_sample \<Rightarrow> sample" where
  "drop_Date m =
     \<lparr>Ciclomatic_Complexity = Ciclomatic_Complexity m, Maintainability = Maintainability m,
      Lines_of_Code = Lines_of_Code m\<rparr>"

text \<open>\<open>contributes r c item\<close>: the entry is a blob whose path ends in \<^verbatim>\<open>.py\<close>, its content at
  the commit is not empty and the stem of its name is not \<^verbatim>\<open>__init__\<close>.\<close>

definition contributes :: "repo \<Rightarrow> commit \<Rightarrow> tree_item \<Rightarrow> bool" where
  "contributes r c item =
     (qualifies item \<and> content_at r c item \<noteq> Inr [] \<and> file_stem item \<noteq> ''__init__'')"

text \<open>
  \<open>first_rows h\<close> are the rows that a history by file gives to the table of the current
  files: per key the first sample, with the key as its \<^verbatim>\<open>File\<close>. \<open>table_rows E dir\<close> are those
  of the walk over the newest commit. \<open>history_after calls dir h\<close> is the history by file
  that a sequence of calls leaves, when it was \<open>h\<close> before: the result of the walk of the
  last call that inspects the history.
\<close>

definition first_rows :: "file_history \<Rightarrow> file_sample list" where
  "first_rows h =
     concat (map (\<lambda>kv. case snd kv of [] \<Rightarrow> [] | m # ms \<Rightarrow> [set_File m (fst kv)]) h)"

definition table_rows :: "env \<Rightarrow> string \<Rightarrow> file_sample list" where
  "table_rows E dir =
     (case generate_history_metrics_by_file E dir (Some 1) of
        Inl e \<Rightarrow> []
      | Inr (h, out) \<Rightarrow> first_rows h)"

fun history_after :: "(env \<times> bool \<times> int) list \<Rightarrow> string \<Rightarrow> file_history \<Rightarrow> file_history" where
  "history_after [] dir h = h"
| "history_after ((E, inspect_history, max_history_count) # calls) dir h =
     history_after calls dir
       (if inspect_history then
          (case generate_history_metrics_by_file E dir
                  (if max_history_count > 0 then Some max_history_count else None) of
             Inl e \<Rightarrow> h
           | Inr (h', out) \<Rightarrow> h')
        else h)"

section \<open>An example repository\<close>

text \<open>
  A stand-in for radon that finds two blocks of complexity 1 in every text, gives every text
  the index 100 and counts its lines, and one that fails on every text; a clock that reads
  the instants of January 1970 in UTC and raises for the others; a standard output that
  takes ASCII characters only; and three repositories. The first has two commits: the newer
  one holds a directory, a package file, two modules and a text file, the older one a module
  and an empty file. The second has one commit, in which two modules of different
  directories have the same name. The third has no commit.
\<close>

definition blob :: "string \<Rightarrow> string \<Rightarrow> tree_item" where
  "blob path name = \<lparr>item_type = ''blob'', item_path = path, item_name = name\<rparr>"

definition example_radon :: analysis where
  "example_radon =
     \<lparr>cc_visit = (\<lambda>src. Inr [1, 1]),
      mi_visit = (\<lambda>src multi. Inr (PyFloat (dbl 100 0))),
      analyze = (\<lambda>src. Inr \<lparr>loc = Suc (length (filter (\<lambda>ch. ch = CHR 0x0A) src))\<rparr>)\<rparr>"

definition failing_radon :: analysis where
  "failing_radon =
     \<lparr>cc_visit = (\<lambda>src. Inr [1, 3]),
      mi_visit = (\<lambda>src multi. Inl (Exception ''invalid syntax'')),
      analyze = (\<lambda>src. Inr \<lparr>loc = 7\<rparr>)\<rparr>"

definition example_date :: "int \<Rightarrow> datetime" where
  "example_date t =
     \<lparr>year = 1970, month = 1, day = 1 + nat (t div 86400), hour = nat (t mod 86400 div 3600),
      minute = nat (t mod 3600 div 60), second = nat (t mod 60)\<rparr>"

definition example_clock :: "int \<Rightarrow> exn + datetime" where
  "example_clock t =
     (if 0 \<le> t \<and> t < 2678400 then Inr (example_date t)
      else Inl (Exception ''year is out of range''))"

definition ascii_print :: "string \<Rightarrow> exn + unit" where
  "ascii_print line =
     (if list_all (\<lambda>ch. of_char ch < (128::nat)) line then Inr ()
      else Inl (Exception ''codec cannot encode character''))"

definition example_show :: "string \<Rightarrow> exn + string" where
  "example_show spec =
     (if spec = ''c2:pkg/__init__.py'' then Inr ''import util''
      else if spec = ''c2:a/util.py'' then Inr ''x = 1''
      else if spec = ''c2:b/core.py'' then Inr ''y = 2''
      else if spec = ''c1:a/util.py'' then Inr ''x = 0''
      else if spec = ''c1:b/empty.py'' then Inr ''''
      else if spec = ''c3:pkg/__init__.py'' then Inr ''import util''
      else if spec = ''c3:a/util.py'' then Inr ''x = 1''
      else if spec = ''c3:b/util.py'' then Inr (''y = 2'' @ [CHR 0x0A] @ ''z = 3'')
      else Inl (Exception ''fatal: invalid object name''))"

definition example_head :: commit where
  "example_head =
     \<lparr>hexsha = ''c2'', committed_date = 3600,
      tree_traverse =
        [\<lparr>item_type = ''tree'', item_path = ''pkg'', item_name = ''pkg''\<rparr>,
         blob ''pkg/__init__.py'' ''__init__.py'',
         blob ''a/util.py'' ''util.py'',
         blob ''b/core.py'' ''core.py'',
         blob ''README.md'' ''README.md'']\<rparr>"

definition example_first :: commit where
  "example_first =
     \<lparr>hexsha = ''c1'', committed_date = 60,
      tree_traverse = [blob ''a/util.py'' ''util.py'', blob ''b/empty.py'' ''empty.py'']\<rparr>"

definition example_repo :: repo where
  "example_repo = \<lparr>commit_log = [example_head, example_first], git_show = example_show\<rparr>"

definition twins_head :: commit where
  "twins_head =
     \<lparr>hexsha = ''c3'', committed_date = 7200,
      tree_traverse =
        [blob ''pkg/__init__.py'' ''__init__.py'',
         blob ''a/util.py'' ''util.py'',
         blob ''b/util.py'' ''util.py'']\<rparr>"

definition twins_repo :: repo where
  "twins_repo = \<lparr>commit_log = [twins_head], git_show = example_show\<rparr>"

definition empty_repo :: repo where
  "empty_repo = \<lparr>commit_log = [], git_show = example_show\<rparr>"

definition example_env :: env where
  "example_env =
     \<lparr>git_Repo = (\<lambda>dir. if dir = ''proj'' then Inr example_repo
                        else if dir = ''twins'' then Inr twins_repo
                        else if dir = ''empty'' then Inr empty_repo
                        else Inl (Exception ''NoSuchPathError'')),
      radon = example_radon, fromtimestamp = example_clock, print = ascii_print\<rparr>"

text \<open>The rows that the inspector computes on these repositories: the sample of a file with
  its date, the same with its name, a weighted aggregate, the history of the first
  repository by file and by date, and the inspector after one, two and three calls: the
  first without the history, the second with all of it, the third with one commit of it.\<close>

definition example_row :: "nat \<Rightarrow> string \<Rightarrow> dated_sample" where
  "example_row n d =
     \<lparr>Ciclomatic_Complexity = PyInt 1, Maintainability = PyFloat (dbl 100 0), Lines_of_Code = n,
      Date = d\<rparr>"

definition example_file_row :: "string \<Rightarrow> nat \<Rightarrow> string \<Rightarrow> file_sample" where
  "example_file_row f n d = set_File (example_row n d) f"

definition example_total :: "nat \<Rightarrow> sample" where
  "example_total n =
     \<lparr>Ciclomatic_Complexity = PyFloat (dbl 1 0), Maintainability = PyFloat (dbl 100 0),
      Lines_of_Code = n\<rparr>"

definition example_file_history :: file_history where
  "example_file_history =
     [(''util'', [example_row 1 ''1970-01-01 01:00:00'', example_row 1 ''1970-01-01 00:01:00'']),
      (''core'', [example_row 1 ''1970-01-01 01:00:00''])]"

definition example_timeline :: "dated_sample list" where
  "example_timeline =
     [set_Date (example_total 2) ''1970-01-01 01:00:00'',
      set_Date (example_total 1) ''1970-01-01 00:01:00'']"

definition example_after_one :: inspector where
  "example_after_one =
     \<lparr>project_directory = ''proj'', metrics = [example_total 2],
      metrics_by_file =
        [example_file_row ''util'' 1 ''1970-01-01 01:00:00'',
         example_file_row ''core'' 1 ''1970-01-01 01:00:00''],
      history_metrics = [], history_metrics_by_file = [], printed = []\<rparr>"

definition example_after_two :: inspector where
  "example_after_two =
     \<lparr>project_directory = ''proj'', metrics = [example_total 2, example_total 4],
      metrics_by_file =
        [example_file_row ''util'' 1 ''1970-01-01 01:00:00'',
         example_file_row ''core'' 1 ''1970-01-01 01:00:00'',
         example_file_row ''util'' 1 ''1970-01-01 01:00:00'',
         example_file_row ''core'' 1 ''1970-01-01 01:00:00''],
      history_metrics = example_timeline, history_metrics_by_file = example_file_history,
      printed = []\<rparr>"

definition example_after_three :: inspector where
  "example_after_three =
     \<lparr>project_directory = ''proj'',
      metrics = [example_total 2, example_total 4, example_total 6],
      metrics_by_file =
        [example_file_row ''util'' 1 ''1970-01-01 01:00:00'',
         example_file_row ''core'' 1 ''1970-01-01 01:00:00'',
         example_file_row ''util'' 1 ''1970-01-01 01:00:00'',
         example_file_row ''core'' 1 ''1970-01-01 01:00:00'',
         example_file_row ''util'' 1 ''1970-01-01 01:00:00'',
         example_file_row ''core'' 1 ''1970-01-01 01:00:00''],
      history_metrics =
        example_timeline @ [set_Date (example_total 2) ''1970-01-01 01:00:00''],
      history_metrics_by_file =
        [(''util'', [example_row 1 ''1970-01-01 01:00:00'']),
         (''core'', [example_row 1 ''1970-01-01 01:00:00''])],
      printed = []\<rparr>"

definition twins_after_one :: inspector where
  "twins_after_one =
     \<lparr>project_directory = ''twins'', metrics = [example_total 1],
      metrics_by_file = [example_file_row ''util'' 1 ''1970-01-01 02:00:00''],
      history_metrics = [], history_metrics_by_file = [], printed = []\<rparr>"

section \<open>Facts about the arithmetic\<close>

subsection \<open>Sequencing\<close>

lemma ebind_Inl [simp]: "ebind (Inl e) f = Inl e"
  by (simp add: ebind_def)

lemma ebind_Inr [simp]: "ebind (Inr v) f = f v"
  by (simp add: ebind_def)

lemma ebind_eq_Inr: "ebind r f = Inr y \<longleftrightarrow> (\<exists>v. r = Inr v \<and> f v = Inr y)"
  by (cases r) auto

lemma ebind_eq_Inl: "ebind r f = Inl e \<longleftrightarrow> r = Inl e \<or> (\<exists>v. r = Inr v \<and> f v = Inl e)"
  by (cases r) auto

lemma efold_append: "efold f (xs @ ys) s = ebind (efold f xs s) (efold f ys)"
proof (induction xs arbitrary: s)
  case Nil
  show ?case by simp
next
  case (Cons x xs)
  show ?case by (cases "f x s") (simp_all add: Cons.IH)
qed

subsection \<open>Rounding\<close>

lemma rhe_div_exact: "0 < b \<Longrightarrow> b dvd a \<Longrightarrow> rhe_div a b = a div b"
  by (auto simp: rhe_div_def Let_def)

lemma rhe_div_ge: "0 < b \<Longrightarrow> a div b \<le> rhe_div a b"
  by (simp add: rhe_div_def Let_def)

lemma rhe_div_le:
  assumes "0 < b" "a \<le> c * b"
  shows "rhe_div a b \<le> c"
proof (cases "a div b = c")
  case True
  have "a = (a div b) * b + a mod b" by simp
  with True assms have "a mod b \<le> 0" by (metis add_le_same_cancel1)
  moreover have "0 \<le> a mod b" using assms by simp
  ultimately have "a mod b = 0" by simp
  then show ?thesis using True assms by (simp add: rhe_div_def Let_def)
next
  case False
  have "a div b \<le> c" using assms
    by (metis div_mult_self_is_m zdiv_mono1 mult.commute nonzero_mult_div_cancel_right less_irrefl)
  with False have "a div b + 1 \<le> c" by simp
  then show ?thesis by (auto simp: rhe_div_def Let_def)
qed

lemma bitlen_ge_54: "2 ^ 53 \<le> q \<Longrightarrow> 54 \<le> bitlen q"
proof -
  assume a: "(2::int) ^ 53 \<le> q"
  then have q: "0 < q" by (smt (verit) zero_less_power)
  from bitlen_bounds[OF q] have "q < 2 ^ nat (bitlen q)" by simp
  with a have "(2::int) ^ 53 < 2 ^ nat (bitlen q)" by simp
  then have "53 < nat (bitlen q)" by (rule power_less_imp_less_exp[rotated]) simp
  then show ?thesis by simp
qed

lemma round_mag_fix:
  assumes "0 \<le> m" "m \<le> 2 ^ 53"
  shows "round_mag (m * 2 ^ s) 1 = m * 2 ^ s"
proof (cases "m * 2 ^ s < 2 ^ 53")
  case True
  then show ?thesis by (simp add: round_mag_def rhe_div_def Let_def)
next
  case False
  let ?k = "m * 2 ^ s"
  let ?sh = "nat (bitlen ?k - 53)"
  from False have m: "0 < m" using assms by (cases "m = 0") auto
  have bl: "bitlen ?k = bitlen m + int s" using m by simp
  have "(2::int) ^ ?sh dvd ?k"
  proof (cases "m = 2 ^ 53")
    case True
    have "bitlen (1 * 2 ^ 53 :: int) = bitlen 1 + 53"
      by (rule bitlen_pow2[of 1 53, simplified of_nat_numeral]) simp
    moreover have "bitlen 1 = 1" by (subst compute_bitlen) simp
    ultimately have "bitlen m = 54" using True by simp
    with bl have "?sh = s + 1" by simp
    moreover have "?k = 2 ^ (53 + s)" using True by (simp add: power_add)
    moreover have "(2::int) ^ (s + 1) dvd 2 ^ (53 + s)" by (rule le_imp_power_dvd) simp
    ultimately show ?thesis by metis
  next
    case F: False
    with assms have "m < 2 ^ 53" by simp
    moreover from bitlen_bounds[OF m] have "2 ^ nat (bitlen m - 1) \<le> m" by simp
    ultimately have "(2::int) ^ nat (bitlen m - 1) < 2 ^ 53" by linarith
    then have "nat (bitlen m - 1) < 53" by (rule power_less_imp_less_exp[rotated]) simp
    then have "bitlen m \<le> 53" by simp
    with bl have "?sh \<le> s" by simp
    then have "(2::int) ^ ?sh dvd 2 ^ s" by (simp add: le_imp_power_dvd)
    then show ?thesis by simp
  qed
  then have "rhe_div ?k (2 ^ ?sh) * 2 ^ ?sh = ?k"
    by (simp add: rhe_div_exact)
  with False show ?thesis by (simp add: round_mag_def Let_def)
qed

lemma round_mag_out:
  assumes "0 \<le> n" "0 < d"
  shows "\<exists>m s. round_mag n d = m * 2 ^ s \<and> 0 \<le> m \<and> m \<le> 2 ^ 53"
proof (cases "n div d < 2 ^ 53")
  case True
  then have "n div d + 1 \<le> 2 ^ 53" by simp
  have "n < (n div d + 1) * d" using assms
    by (metis add.commute div_mult_mod_eq distrib_right mult.commute mult_1 pos_mod_bound add_strict_left_mono)
  also have "\<dots> \<le> 2 ^ 53 * d" using \<open>n div d + 1 \<le> 2 ^ 53\<close> assms by (simp add: mult_right_mono)
  finally have "rhe_div n d \<le> 2 ^ 53" using assms by (intro rhe_div_le) auto
  moreover have "0 \<le> rhe_div n d" using rhe_div_ge[of d n] assms
    by (smt (verit) pos_imp_zdiv_nonneg_iff)
  ultimately show ?thesis using True
    by (intro exI[of _ "rhe_div n d"] exI[of _ 0]) (simp add: round_mag_def Let_def)
next
  case False
  let ?q = "n div d"
  let ?sh = "nat (bitlen ?q - 53)"
  from False have q53: "2 ^ 53 \<le> ?q" by simp
  then have q: "0 < ?q" by (smt (verit) zero_less_power)
  from bitlen_ge_54[OF q53] have sh: "nat (bitlen ?q) = 53 + ?sh" by simp
  have "n < (?q + 1) * d" using assms
    by (metis add.commute div_mult_mod_eq distrib_right mult.commute mult_1 pos_mod_bound add_strict_left_mono)
  also have "\<dots> \<le> 2 ^ nat (bitlen ?q) * d"
    using bitlen_bounds[OF q] assms by (simp add: mult_right_mono)
  also have "\<dots> = 2 ^ 53 * (d * 2 ^ ?sh)" by (simp add: sh power_add)
  finally have "rhe_div n (d * 2 ^ ?sh) \<le> 2 ^ 53" using assms by (intro rhe_div_le) auto
  moreover have "0 \<le> rhe_div n (d * 2 ^ ?sh)" using rhe_div_ge[of "d * 2 ^ ?sh" n] assms
    by (smt (verit) pos_imp_zdiv_nonneg_iff zero_less_mult_iff zero_less_power)
  ultimately show ?thesis using False
    by (intro exI[of _ "rhe_div n (d * 2 ^ ?sh)"] exI[of _ ?sh]) (simp add: round_mag_def Let_def)
qed

lemma round_mag_idem:
  assumes "0 \<le> n" "0 < d"
  shows "round_mag (round_mag n d) 1 = round_mag n d"
  using round_mag_out[OF assms] round_mag_fix by auto

lemma round_mag_nonneg: "0 \<le> n \<Longrightarrow> 0 < d \<Longrightarrow> 0 \<le> round_mag n d"
  using round_mag_out[of n d] by auto

lemma round_double_idem:
  assumes "0 < d" "round_double n d = Finite k"
  shows "round_double k 1 = Finite k"
proof -
  let ?r = "round_mag \<bar>n\<bar> d"
  from assms have lt: "?r < MAXK" and k: "k = (if n < 0 then - ?r else ?r)"
    by (auto simp: round_double_def Let_def split: if_splits)
  have nn: "0 \<le> ?r" using assms by (simp add: round_mag_nonneg)
  then have "\<bar>k\<bar> = ?r" using k by auto
  then have "round_mag \<bar>k\<bar> 1 = ?r" using round_mag_idem[of "\<bar>n\<bar>" d] assms by simp
  then show ?thesis using lt k nn by (auto simp: round_double_def Let_def)
qed

lemma SCALE_emin: "SCALE = 2 ^ emin"
  unfolding SCALE_def emin_def by (rule refl)

lemma MAXK_emin: "MAXK = 2 ^ (emin + 1024)"
  unfolding MAXK_def emin_def by simp

lemma dbl_emin: "dbl m e = Finite (m * 2 ^ nat (e + int emin))"
  unfolding dbl_def emin_def by simp

lemma rhe_div_scale: "0 < c \<Longrightarrow> rhe_div (a * c) (b * c) = rhe_div a b"
  by (simp add: rhe_div_def Let_def mult.assoc[symmetric] del: mult.assoc)

lemma div_lt_bound:
  assumes "0 < (d::int)" "n < k * d"
  shows "n div d < k"
proof -
  have "n div d * d + n mod d = n" by simp
  moreover have "0 \<le> n mod d" using assms by simp
  ultimately have "n div d * d \<le> n" by linarith
  with assms have "n div d * d < k * d" by linarith
  with assms show ?thesis by (simp add: mult_less_cancel_right)
qed

lemma div_ge_bound:
  assumes "0 < (d::int)" "k * d \<le> n"
  shows "k \<le> n div d"
proof -
  have "k * d div d \<le> n div d" using assms by (intro zdiv_mono1)
  with assms show ?thesis by simp
qed

lemma round_mag_at:
  assumes "0 < d" "n < 2 ^ 53 * (d * 2 ^ u)" "u = 0 \<or> 2 ^ 52 * (d * 2 ^ u) \<le> n"
  shows "round_mag n d = rhe_div n (d * 2 ^ u) * 2 ^ u"
proof (cases "u = 0")
  case True
  with assms have "n div d < 2 ^ 53" by (intro div_lt_bound) auto
  with True show ?thesis by (simp add: round_mag_def Let_def)
next
  case False
  let ?q = "n div d"
  from False assms have lo: "2 ^ 52 * (d * 2 ^ u) \<le> n" by simp
  have "(2 ^ (52 + u)) * d \<le> n" using lo by (simp add: power_add mult.assoc mult.left_commute mult.commute)
  then have qlo: "2 ^ (52 + u) \<le> ?q" using assms by (intro div_ge_bound) auto
  have "n < (2 ^ (53 + u)) * d" using assms(2) by (simp add: power_add mult.assoc mult.left_commute mult.commute)
  then have qhi: "?q < 2 ^ (53 + u)" using assms by (intro div_lt_bound) auto
  have "(2::int) ^ 53 \<le> 2 ^ (52 + u)" using False by (intro power_increasing) auto
  with qlo have big: "\<not> ?q < 2 ^ 53" by linarith
  have "bitlen ?q = int (53 + u)"
  proof (rule antisym)
    have "nat (int (53 + u)) = 53 + u" "nat (int (53 + u)) - 1 = 52 + u" by simp_all
    then show "bitlen ?q \<le> int (53 + u)" using qhi
      unfolding bitlen_le_iff_power by (metis of_nat_0_le_iff)
    show "int (53 + u) \<le> bitlen ?q" using qlo \<open>nat (int (53 + u)) - 1 = 52 + u\<close>
      unfolding bitlen_ge_iff_power by metis
  qed
  then have "nat (bitlen ?q - 53) = u" by simp
  with big show ?thesis by (simp add: round_mag_def Let_def)
qed

lemma MAXK_pos: "0 < MAXK"
  by (simp add: MAXK_emin)

lemma round_mag_zero [simp]: "0 < d \<Longrightarrow> round_mag 0 d = 0"
  by (simp add: round_mag_def rhe_div_def)

lemma round_double_zero [simp]: "0 < d \<Longrightarrow> round_double 0 d = Finite 0"
  using MAXK_pos by (simp add: round_double_def)

lemma float_of_int_zero [simp]: "float_of_int 0 = Inr (Finite 0)"
  by (simp add: float_of_int_def)

lemma round_mag_pos:
  assumes "0 < d" "d \<le> n"
  shows "0 < round_mag n d"
proof -
  let ?q = "n div d"
  have q1: "1 \<le> ?q" using assms by (intro div_ge_bound) auto
  show ?thesis
  proof (cases "?q < 2 ^ 53")
    case True
    then show ?thesis using rhe_div_ge[of d n] q1 assms by (simp add: round_mag_def Let_def)
  next
    case False
    let ?s = "nat (bitlen ?q - 53)"
    from q1 have q: "0 < ?q" by simp
    from False have "54 \<le> bitlen ?q" by (intro bitlen_ge_54) simp
    then have "?s \<le> nat (bitlen ?q - 1)" by simp
    then have "(2::int) ^ ?s \<le> 2 ^ nat (bitlen ?q - 1)" by (intro power_increasing) auto
    also have "\<dots> \<le> ?q" using bitlen_bounds[OF q] by simp
    finally have "2 ^ ?s * d \<le> ?q * d" using assms by (simp add: mult_right_mono)
    also have "\<dots> \<le> n"
    proof -
      have "?q * d + n mod d = n" by simp
      moreover have "0 \<le> n mod d" using assms by simp
      ultimately show ?thesis by linarith
    qed
    finally have "1 * (d * 2 ^ ?s) \<le> n" by (simp add: mult.commute)
    then have "1 \<le> n div (d * 2 ^ ?s)" using assms by (intro div_ge_bound) auto
    then have "1 \<le> rhe_div n (d * 2 ^ ?s)" using rhe_div_ge[of "d * 2 ^ ?s" n] assms by simp
    then have "0 < rhe_div n (d * 2 ^ ?s) * 2 ^ ?s" by simp
    with False show ?thesis by (simp add: round_mag_def Let_def)
  qed
qed

lemma SCALE_pos: "0 < SCALE"
  by (simp add: SCALE_emin)

lemma float_of_int_nonzero:
  assumes "n \<noteq> 0"
  shows "float_of_int n \<noteq> Inr (Finite 0)"
proof -
  have "1 * 1 \<le> \<bar>n\<bar> * SCALE" using assms SCALE_pos by (intro mult_mono) auto
  then have "0 < round_mag \<bar>n * SCALE\<bar> 1" using SCALE_pos
    by (intro round_mag_pos) (simp_all add: abs_mult)
  then show ?thesis
    by (auto simp: float_of_int_def round_double_def Let_def split: pyfloat.splits if_splits)
qed

subsection \<open>Doubles, scaling, exact results\<close>

lemma is_double_round: "0 < d \<Longrightarrow> is_double (round_double n d)"
  by (cases "round_double n d") (auto simp: is_double_def dest: round_double_idem)

lemma is_double_fadd: "is_double (fadd x y)"
  by (cases x; cases y) (simp_all add: is_double_round, simp_all add: is_double_def)

lemma fadd_zero: "is_double x \<Longrightarrow> fadd x (Finite 0) = x"
  by (cases x) (simp_all add: is_double_def)

lemma is_double_zero: "is_double (Finite 0)"
  by (simp add: is_double_def)


lemma round_mag_scale:
  assumes "0 < c"
  shows "round_mag (n * c) (d * c) = round_mag n d"
proof -
  have 1: "(n * c) div (d * c) = n div d" using assms by simp
  have 2: "rhe_div (n * c) (d * c) = rhe_div n d" using assms by (rule rhe_div_scale)
  have 3: "rhe_div (n * c) (d * c * 2 ^ s) = rhe_div n (d * 2 ^ s)" for s
  proof -
    have "d * c * 2 ^ s = (d * 2 ^ s) * c" by (simp add: ac_simps)
    then have "rhe_div (n * c) (d * c * 2 ^ s) = rhe_div (n * c) ((d * 2 ^ s) * c)" by (rule arg_cong)
    also have "\<dots> = rhe_div n (d * 2 ^ s)" using assms by (rule rhe_div_scale)
    finally show ?thesis .
  qed
  show ?thesis unfolding round_mag_def Let_def 1 2 3 ..
qed

lemma round_double_scale:
  assumes "0 < c"
  shows "round_double (n * c) (d * c) = round_double n d"
proof -
  have 1: "\<bar>n * c\<bar> = \<bar>n\<bar> * c" using assms by (simp add: abs_mult)
  have 2: "n * c < 0 \<longleftrightarrow> n < 0" using assms by (simp add: mult_less_0_iff)
  show ?thesis unfolding round_double_def Let_def 1 2 round_mag_scale[OF assms] ..
qed

lemma round_double_exact:
  assumes "\<bar>m\<bar> \<le> 2 ^ 53" "53 + u < emin + 1024"
  shows "round_double (m * 2 ^ u) 1 = Finite (m * 2 ^ u)"
proof -
  have mag: "round_mag (\<bar>m\<bar> * 2 ^ u) 1 = \<bar>m\<bar> * 2 ^ u"
    using assms by (intro round_mag_fix) auto
  have "\<bar>m\<bar> * 2 ^ u \<le> 2 ^ 53 * 2 ^ u" using assms by (intro mult_right_mono) auto
  also have "\<dots> = 2 ^ (53 + u)" by (simp add: power_add)
  also have "\<dots> < (2::int) ^ (emin + 1024)" using assms by (intro power_strict_increasing) auto
  finally have lt: "\<not> MAXK \<le> \<bar>m\<bar> * 2 ^ u" by (simp add: MAXK_emin)
  have abs: "\<bar>m * 2 ^ u\<bar> = \<bar>m\<bar> * 2 ^ u" by (simp add: abs_mult)
  have neg: "m * 2 ^ u < 0 \<longleftrightarrow> m < 0" by (simp add: mult_less_0_iff)
  show ?thesis unfolding round_double_def Let_def abs mag using lt neg by auto
qed

lemma round_double_normal:
  assumes "0 < d" "0 \<le> n" "n < 2 ^ 53 * (d * 2 ^ u)" "u = 0 \<or> 2 ^ 52 * (d * 2 ^ u) \<le> n"
    "53 + u < emin + 1024"
  shows "round_double n d = Finite (rhe_div n (d * 2 ^ u) * 2 ^ u)"
proof -
  let ?m = "rhe_div n (d * 2 ^ u)"
  have mag: "round_mag n d = ?m * 2 ^ u" using assms by (intro round_mag_at) auto
  have "?m \<le> 2 ^ 53" using assms by (intro rhe_div_le) auto
  then have "?m * 2 ^ u \<le> 2 ^ 53 * 2 ^ u" by (intro mult_right_mono) auto
  also have "\<dots> = 2 ^ (53 + u)" by (simp add: power_add)
  also have "\<dots> < (2::int) ^ (emin + 1024)" using assms by (intro power_strict_increasing) auto
  finally have lt: "\<not> MAXK \<le> ?m * 2 ^ u" by (simp add: MAXK_emin)
  have abs: "\<bar>n\<bar> = n" using assms by simp
  show ?thesis unfolding round_double_def Let_def abs mag using lt assms by auto
qed

lemma dbl_int: "dbl n 0 = Finite (n * SCALE)"
  by (simp add: dbl_emin SCALE_emin)

lemma float_of_int_exact:
  assumes "\<bar>n\<bar> \<le> 2 ^ 53"
  shows "float_of_int n = Inr (dbl n 0)"
proof -
  have "round_double (n * 2 ^ emin) 1 = Finite (n * 2 ^ emin)"
    using assms by (intro round_double_exact) (auto simp: emin_def)
  then show ?thesis by (simp add: float_of_int_def dbl_int SCALE_emin)
qed

lemma fadd_int:
  assumes "\<bar>a + b\<bar> \<le> 2 ^ 53"
  shows "fadd (dbl a 0) (dbl b 0) = dbl (a + b) 0"
proof -
  have "round_double ((a + b) * 2 ^ emin) 1 = Finite ((a + b) * 2 ^ emin)"
    using assms by (intro round_double_exact) (auto simp: emin_def)
  then show ?thesis by (simp add: dbl_int SCALE_emin distrib_right)
qed

lemma fmul_int:
  assumes "\<bar>a * b\<bar> \<le> 2 ^ 53"
  shows "fmul (dbl a 0) (dbl b 0) = dbl (a * b) 0"
proof -
  have eq: "a * SCALE * (b * SCALE) = (a * b * 2 ^ emin) * SCALE"
    by (simp add: SCALE_emin ac_simps)
  have "fmul (dbl a 0) (dbl b 0) = round_double (a * SCALE * (b * SCALE)) SCALE"
    by (simp add: dbl_int)
  also have "\<dots> = round_double ((a * b * 2 ^ emin) * SCALE) (1 * SCALE)"
    unfolding eq by simp
  also have "\<dots> = round_double (a * b * 2 ^ emin) 1"
    using SCALE_pos by (rule round_double_scale)
  also have "\<dots> = Finite (a * b * 2 ^ emin)"
    using assms by (intro round_double_exact) (auto simp: emin_def)
  also have "\<dots> = dbl (a * b) 0" by (simp add: dbl_int SCALE_emin)
  finally show ?thesis .
qed

lemma fdiv_exact:
  assumes "is_double (Finite k)" "0 < l"
  shows "fdiv (Finite (k * l)) (dbl l 0) = Inr (Finite k)"
proof -
  have pos: "0 < l * SCALE" using assms SCALE_pos by simp
  have eq: "k * l * SCALE = k * (l * SCALE)" by simp
  have "fdiv (Finite (k * l)) (dbl l 0) = Inr (round_double (k * l * SCALE) (l * SCALE))"
    using pos unfolding dbl_int by (simp del: mult_eq_0_iff zero_less_mult_iff)
  also have "round_double (k * l * SCALE) (l * SCALE)
    = round_double (k * (l * SCALE)) (1 * (l * SCALE))" unfolding eq by simp
  also have "\<dots> = round_double k 1" using pos by (rule round_double_scale)
  also have "\<dots> = Finite k" using assms by (simp add: is_double_def)
  finally show ?thesis .
qed

lemma is_double_int: "\<bar>n\<bar> \<le> 2 ^ 53 \<Longrightarrow> is_double (dbl n 0)"
  using round_double_exact[of n emin] by (simp add: is_double_def dbl_int SCALE_emin emin_def)

lemma fdiv_int:
  assumes "\<bar>c\<bar> \<le> 2 ^ 53" "0 < l"
  shows "fdiv (dbl (c * l) 0) (dbl l 0) = Inr (dbl c 0)"
proof -
  have 1: "dbl (c * l) 0 = Finite (c * SCALE * l)" by (simp add: dbl_int ac_simps)
  have 2: "is_double (Finite (c * SCALE))" using is_double_int[OF assms(1)] by (simp add: dbl_int)
  show ?thesis unfolding 1 using fdiv_exact[OF 2 assms(2)] by (simp add: dbl_int)
qed

subsection \<open>Evaluating the arithmetic on given doubles\<close>

lemma dbl_eqI:
  assumes "- 1074 \<le> e1" "e2 = e1 + int k" "m1 = m2 * 2 ^ k"
  shows "dbl m1 e1 = dbl m2 e2"
proof -
  have "nat (e2 + 1074) = k + nat (e1 + 1074)" using assms by simp
  then show ?thesis using assms by (simp add: dbl_def power_add ac_simps)
qed

lemma rhe_div_nonneg: "0 \<le> a \<Longrightarrow> 0 < b \<Longrightarrow> 0 \<le> rhe_div a b"
  using rhe_div_ge[of b a] by (smt (verit) pos_imp_zdiv_nonneg_iff)

text \<open>A magnitude \<open>c * 2 ^ e0\<close> over \<open>d\<close>, rounded at the exponent \<open>e0 + s - t\<close>.\<close>

lemma round_double_at_exponent:
  assumes c: "0 \<le> c" and d: "0 < d" and e0: "- 1074 \<le> e0"
    and e: "e = e0 + int s - int t" "- 1074 \<le> e" "e + 53 < 1024"
    and hi: "c * 2 ^ t < 2 ^ 53 * (d * 2 ^ s)"
    and lo: "e = - 1074 \<or> 2 ^ 52 * (d * 2 ^ s) \<le> c * 2 ^ t"
    and t: "int t \<le> e0 + 1074"
  shows "round_double (c * 2 ^ nat (e0 + 1074)) d = dbl (rhe_div (c * 2 ^ t) (d * 2 ^ s)) e"
proof -
  let ?v = "nat (e0 + 1074)"
  let ?u = "nat (e + 1074)"
  let ?X = "(2::int) ^ (?v - t)"
  have X: "0 < ?X" by simp
  have tu: "t \<le> ?v" using t by simp
  have u: "?u + t = ?v + s" using e e0 t by simp
  have N: "c * 2 ^ ?v = (c * 2 ^ t) * ?X"
  proof -
    have "(2::int) ^ ?v = 2 ^ (t + (?v - t))" using tu by simp
    then show ?thesis by (simp only: power_add mult.assoc)
  qed
  have D: "d * 2 ^ ?u = (d * 2 ^ s) * ?X"
  proof -
    have "?u = s + (?v - t)" using u tu by simp
    then have "(2::int) ^ ?u = 2 ^ s * ?X" by (simp only: power_add)
    then show ?thesis by (simp only: mult.assoc)
  qed
  have 1: "0 \<le> c * 2 ^ ?v" using c by simp
  have 2: "c * 2 ^ ?v < 2 ^ 53 * (d * 2 ^ ?u)"
  proof -
    have "(c * 2 ^ t) * ?X < (2 ^ 53 * (d * 2 ^ s)) * ?X" using hi X by (rule mult_strict_right_mono)
    then show ?thesis unfolding N D by (simp only: mult.assoc)
  qed
  have 3: "?u = 0 \<or> 2 ^ 52 * (d * 2 ^ ?u) \<le> c * 2 ^ ?v"
  proof (cases "e = - 1074")
    case True
    then show ?thesis by simp
  next
    case False
    with lo have "2 ^ 52 * (d * 2 ^ s) \<le> c * 2 ^ t" by simp
    then have "(2 ^ 52 * (d * 2 ^ s)) * ?X \<le> (c * 2 ^ t) * ?X" using X by (intro mult_right_mono) auto
    then have "2 ^ 52 * (d * 2 ^ ?u) \<le> c * 2 ^ ?v" unfolding N D by (simp only: mult.assoc)
    then show ?thesis by (rule disjI2)
  qed
  have 4: "53 + ?u < emin + 1024" using e by (simp add: emin_def)
  have "round_double (c * 2 ^ ?v) d = Finite (rhe_div (c * 2 ^ ?v) (d * 2 ^ ?u) * 2 ^ ?u)"
    using d 1 2 3 4 by (rule round_double_normal)
  also have "rhe_div (c * 2 ^ ?v) (d * 2 ^ ?u) = rhe_div (c * 2 ^ t) (d * 2 ^ s)"
    unfolding N D using X by (rule rhe_div_scale)
  finally show ?thesis by (simp add: dbl_def)
qed

lemma dbl_aligned:
  assumes "- 1074 \<le> e0" "e0 \<le> e"
  shows "dbl m e = Finite (m * 2 ^ nat (e - e0) * 2 ^ nat (e0 + 1074))"
proof -
  have "nat (e + 1074) = nat (e - e0) + nat (e0 + 1074)" using assms by simp
  then show ?thesis by (simp add: dbl_def power_add)
qed

lemma fadd_dbl:
  assumes "- 1074 \<le> e0" "e0 \<le> ea" "e0 \<le> eb"
    and "c = a * 2 ^ nat (ea - e0) + b * 2 ^ nat (eb - e0)" "0 \<le> c"
    and "e = e0 + int s" "e + 53 < 1024"
    and "c < 2 ^ 53 * 2 ^ s" "e = - 1074 \<or> 2 ^ 52 * 2 ^ s \<le> c"
    and "rhe_div c (2 ^ s) = m"
  shows "fadd (dbl a ea) (dbl b eb) = dbl m e"
proof -
  have "fadd (dbl a ea) (dbl b eb) = round_double (c * 2 ^ nat (e0 + 1074)) 1"
    unfolding dbl_aligned[OF assms(1,2)] dbl_aligned[OF assms(1,3)] assms(4)
    by (simp add: distrib_right)
  also have "\<dots> = dbl (rhe_div (c * 2 ^ 0) (1 * 2 ^ s)) e"
    using assms by (intro round_double_at_exponent) auto
  finally show ?thesis using assms by simp
qed

lemma fmul_dbl:
  assumes "- 1074 \<le> ea" "- 1074 \<le> eb" "- 1074 \<le> ea + eb" "0 \<le> a" "0 \<le> b"
    and "e = ea + eb + int s" "e + 53 < 1024"
    and "a * b < 2 ^ 53 * 2 ^ s" "e = - 1074 \<or> 2 ^ 52 * 2 ^ s \<le> a * b"
    and "rhe_div (a * b) (2 ^ s) = m"
  shows "fmul (dbl a ea) (dbl b eb) = dbl m e"
proof -
  let ?ua = "nat (ea + 1074)" and ?ub = "nat (eb + 1074)" and ?v = "nat (ea + eb + 1074)"
  have pos: "(0::int) < 2 ^ emin" by simp
  have "?ua + ?ub = ?v + emin" using assms by (simp add: emin_def)
  then have "(2::int) ^ ?ua * 2 ^ ?ub = 2 ^ ?v * 2 ^ emin" by (simp only: power_add[symmetric])
  then have eq: "a * 2 ^ ?ua * (b * 2 ^ ?ub) = (a * b * 2 ^ ?v) * 2 ^ emin"
    by (simp only: ac_simps)
  have "fmul (dbl a ea) (dbl b eb) = round_double (a * 2 ^ ?ua * (b * 2 ^ ?ub)) (2 ^ emin)"
    by (simp only: dbl_def SCALE_emin fmul.simps)
  also have "\<dots> = round_double ((a * b * 2 ^ ?v) * 2 ^ emin) (1 * 2 ^ emin)"
    by (simp only: eq mult_1)
  also have "\<dots> = round_double (a * b * 2 ^ ?v) 1"
    using pos by (rule round_double_scale)
  also have "\<dots> = dbl (rhe_div (a * b * 2 ^ 0) (1 * 2 ^ s)) e"
    using assms by (intro round_double_at_exponent) auto
  finally show ?thesis using assms by simp
qed

lemma fdiv_dbl:
  assumes "- 1074 \<le> ea" "- 1074 \<le> eb" "- 1074 \<le> ea - eb" "0 \<le> a" "0 < b"
    and "e = ea - eb + int s - int t" "- 1074 \<le> e" "e + 53 < 1024"
    and "a * 2 ^ t < 2 ^ 53 * (b * 2 ^ s)" "e = - 1074 \<or> 2 ^ 52 * (b * 2 ^ s) \<le> a * 2 ^ t"
    and "rhe_div (a * 2 ^ t) (b * 2 ^ s) = m" "int t \<le> ea - eb + 1074"
  shows "fdiv (dbl a ea) (dbl b eb) = Inr (dbl m e)"
proof -
  let ?ua = "nat (ea + 1074)" and ?ub = "nat (eb + 1074)" and ?w = "nat (ea - eb + 1074)"
  have pos: "(0::int) < 2 ^ ?ub" by simp
  have bpos: "0 < b * 2 ^ ?ub" using assms by simp
  have "?ua + emin = ?w + ?ub" using assms by (simp add: emin_def)
  then have "(2::int) ^ ?ua * 2 ^ emin = 2 ^ ?w * 2 ^ ?ub" by (simp only: power_add[symmetric])
  then have eq: "a * 2 ^ ?ua * 2 ^ emin = (a * 2 ^ ?w) * 2 ^ ?ub"
    by (simp only: ac_simps)
  have nz: "b * 2 ^ ?ub \<noteq> 0" "\<not> b * 2 ^ ?ub < 0" "\<bar>b * 2 ^ ?ub\<bar> = b * 2 ^ ?ub"
    using bpos by linarith+
  have "fdiv (dbl a ea) (dbl b eb) = Inr (round_double (a * 2 ^ ?ua * 2 ^ emin) (b * 2 ^ ?ub))"
    by (simp only: dbl_def SCALE_emin fdiv.simps nz if_False pyfloat.case)
  also have "round_double (a * 2 ^ ?ua * 2 ^ emin) (b * 2 ^ ?ub)
    = round_double ((a * 2 ^ ?w) * 2 ^ ?ub) (b * 2 ^ ?ub)" by (simp only: eq)
  also have "\<dots> = round_double (a * 2 ^ ?w) b"
    using pos by (rule round_double_scale)
  also have "\<dots> = dbl (rhe_div (a * 2 ^ t) (b * 2 ^ s)) e"
    using assms by (intro round_double_at_exponent) auto
  finally show ?thesis using assms by simp
qed

lemma py_truediv_int:
  assumes "0 \<le> a" "0 < b" "fdiv (dbl a 0) (dbl b 0) = Inr (Finite k)"
  shows "py_truediv (PyInt a) (PyInt b) = Inr (PyFloat (Finite k))"
proof -
  have bpos: "0 < b * SCALE" using assms SCALE_pos by simp
  have nz: "b * SCALE \<noteq> 0" "\<not> b * SCALE < 0" "\<bar>b * SCALE\<bar> = b * SCALE"
    using bpos by linarith+
  have "fdiv (dbl a 0) (dbl b 0) = Inr (round_double (a * SCALE * SCALE) (b * SCALE))"
    by (simp only: dbl_int fdiv.simps nz if_False pyfloat.case)
  also have "round_double (a * SCALE * SCALE) (b * SCALE) = round_double (a * SCALE) b"
    using SCALE_pos by (rule round_double_scale)
  finally have "round_double (a * SCALE) b = Finite k" using assms by simp
  then show ?thesis using assms by simp
qed

lemma fadd_zero_left: "is_double y \<Longrightarrow> fadd (Finite 0) y = y"
  by (cases y) (simp_all add: is_double_def)

lemma is_double_dbl:
  assumes "\<bar>m\<bar> \<le> 2 ^ 53" "- 1074 \<le> e" "e + 53 < 1024"
  shows "is_double (dbl m e)"
proof -
  have "round_double (m * 2 ^ nat (e + 1074)) 1 = Finite (m * 2 ^ nat (e + 1074))"
    using assms by (intro round_double_exact) (auto simp: emin_def)
  then show ?thesis by (simp add: is_double_def dbl_def)
qed

lemma fdiv_zero:
  assumes "0 < b"
  shows "fdiv (Finite 0) (dbl b e) = Inr (Finite 0)"
proof -
  have "0 < b * 2 ^ nat (e + 1074)" using assms by simp
  then show ?thesis by (simp add: dbl_def del: mult_eq_0_iff zero_less_mult_iff)
qed

lemma fmul_dbl_exact:
  assumes "m = a * b" "e = ea + eb" "\<bar>a * b\<bar> \<le> 2 ^ 53" "- 1074 \<le> ea" "- 1074 \<le> eb"
    "- 1074 \<le> ea + eb" "ea + eb + 53 < 1024"
  shows "fmul (dbl a ea) (dbl b eb) = dbl m e"
proof -
  let ?ua = "nat (ea + 1074)" and ?ub = "nat (eb + 1074)" and ?v = "nat (ea + eb + 1074)"
  have pos: "(0::int) < 2 ^ emin" by simp
  have "?ua + ?ub = ?v + emin" using assms by (simp add: emin_def)
  then have "(2::int) ^ ?ua * 2 ^ ?ub = 2 ^ ?v * 2 ^ emin" by (simp only: power_add[symmetric])
  then have eq: "a * 2 ^ ?ua * (b * 2 ^ ?ub) = (a * b * 2 ^ ?v) * 2 ^ emin"
    by (simp only: ac_simps)
  have "fmul (dbl a ea) (dbl b eb) = round_double (a * 2 ^ ?ua * (b * 2 ^ ?ub)) (2 ^ emin)"
    by (simp only: dbl_def SCALE_emin fmul.simps)
  also have "\<dots> = round_double ((a * b * 2 ^ ?v) * 2 ^ emin) (1 * 2 ^ emin)"
    by (simp only: eq mult_1)
  also have "\<dots> = round_double (a * b * 2 ^ ?v) 1"
    using pos by (rule round_double_scale)
  also have "\<dots> = Finite (a * b * 2 ^ ?v)"
    using assms by (intro round_double_exact) (auto simp: emin_def)
  finally show ?thesis using assms by (simp add: dbl_def)
qed

lemma fadd_dbl_exact:
  assumes "- 1074 \<le> e0" "e0 \<le> ea" "e0 \<le> eb"
    and "c = a * 2 ^ nat (ea - e0) + b * 2 ^ nat (eb - e0)" "\<bar>c\<bar> \<le> 2 ^ 53" "e0 + 53 < 1024"
  shows "fadd (dbl a ea) (dbl b eb) = dbl c e0"
proof -
  have "fadd (dbl a ea) (dbl b eb) = round_double (c * 2 ^ nat (e0 + 1074)) 1"
    unfolding dbl_aligned[OF assms(1,2)] dbl_aligned[OF assms(1,3)] assms(4)
    by (simp add: distrib_right)
  also have "\<dots> = Finite (c * 2 ^ nat (e0 + 1074))"
    using assms by (intro round_double_exact) (auto simp: emin_def)
  finally show ?thesis by (simp add: dbl_def)
qed

subsection \<open>Which exceptions the arithmetic can raise\<close>

lemma float_of_int_error: "float_of_int n = Inl e \<Longrightarrow> e = OverflowError"
  by (auto simp: float_of_int_def split: pyfloat.splits)

lemma as_float_error: "as_float x = Inl e \<Longrightarrow> e = OverflowError"
  by (cases x) (auto dest: float_of_int_error)

lemma py_mul_error: "py_mul x y = Inl e \<Longrightarrow> e = OverflowError"
  by (cases x; cases y) (auto simp: ebind_eq_Inl dest: float_of_int_error)

lemma py_add_error: "py_add x y = Inl e \<Longrightarrow> e = OverflowError"
  by (cases x; cases y) (auto simp: ebind_eq_Inl dest: float_of_int_error)

lemma py_add_float: "py_add (PyFloat t) y = Inr r \<Longrightarrow> \<exists>t'. r = PyFloat t'"
  by (cases y) (auto simp: ebind_eq_Inr)

lemma py_truediv_float_int:
  assumes "n \<noteq> 0"
  shows "py_truediv (PyFloat t) (PyInt n) \<noteq> Inl ZeroDivisionError"
proof
  assume a: "py_truediv (PyFloat t) (PyInt n) = Inl ZeroDivisionError"
  then obtain b where b: "float_of_int n = Inr b" and d: "fdiv t b = Inl ZeroDivisionError"
    by (auto simp: ebind_eq_Inl dest: float_of_int_error)
  from d have "b = Finite 0"
    by (cases t; cases b) (auto split: if_splits)
  with b assms show False using float_of_int_nonzero by blast
qed

section \<open>Facts about the aggregate\<close>

lemma accumulate_error: "accumulate m acc = Inl e \<Longrightarrow> e = OverflowError"
  by (cases acc) (auto simp: accumulate_def ebind_eq_Inl dest: py_mul_error py_add_error)

lemma accumulate_float:
  assumes "accumulate m (PyFloat a, PyFloat b, l) = Inr acc"
  shows "\<exists>a' b'. acc = (PyFloat a', PyFloat b', l + Lines_of_Code m)"
  using assms by (auto simp: accumulate_def ebind_eq_Inr dest!: py_add_float)

lemma weighted_totals_error: "weighted_totals ms acc = Inl e \<Longrightarrow> e = OverflowError"
  unfolding weighted_totals_def
proof (induction ms arbitrary: acc)
  case Nil
  then show ?case by simp
next
  case (Cons m ms)
  then show ?case by (auto simp: ebind_eq_Inl dest: accumulate_error)
qed

lemma weighted_totals_float:
  assumes "weighted_totals ms (PyFloat a, PyFloat b, l) = Inr acc"
  shows "\<exists>a' b'. acc = (PyFloat a', PyFloat b', l + sum_list (map Lines_of_Code ms))"
  using assms unfolding weighted_totals_def
proof (induction ms arbitrary: a b l)
  case Nil
  then show ?case by auto
next
  case (Cons m ms)
  from Cons.prems obtain acc1 where 1: "accumulate m (PyFloat a, PyFloat b, l) = Inr acc1"
    and 2: "efold accumulate ms acc1 = Inr acc" by (auto simp: ebind_eq_Inr)
  from accumulate_float[OF 1] obtain a1 b1 where "acc1 = (PyFloat a1, PyFloat b1, l + Lines_of_Code m)"
    by blast
  with Cons.IH 2 show ?case by (fastforce simp: add.assoc)
qed

lemma weighted_avg_error:
  "weighted_avg (PyFloat t) l \<noteq> Inl ZeroDivisionError"
  using py_truediv_float_int[of "int l" t] by (simp add: weighted_avg_def)

lemma aggregate_no_zero_division: "aggregate ms \<noteq> Inl ZeroDivisionError"
proof
  assume a: "aggregate ms = Inl ZeroDivisionError"
  show False
  proof (cases "weighted_totals ms (PyFloat (Finite 0), PyFloat (Finite 0), 0)")
    case (Inl e)
    with a weighted_totals_error[OF Inl] show False by (simp add: aggregate_def)
  next
    case (Inr acc)
    from weighted_totals_float[OF Inr] obtain a' b' l where "acc = (PyFloat a', PyFloat b', l)" by blast
    with a Inr show False
      using weighted_avg_error[of a' l] weighted_avg_error[of b' l]
      by (auto simp: aggregate_def ebind_eq_Inl)
  qed
qed

lemma accumulate_loc_zero:
  assumes "Lines_of_Code m = 0"
  shows "\<exists>a' b'. accumulate m (PyFloat a, PyFloat b, l) = Inr (PyFloat a', PyFloat b', l)"
  using assms
  by (cases "Ciclomatic_Complexity m"; cases "Maintainability m") (simp_all add: accumulate_def)

lemma weighted_totals_loc_zero:
  assumes "\<forall>m\<in>set ms. Lines_of_Code m = 0"
  shows "\<exists>a' b'. weighted_totals ms (PyFloat a, PyFloat b, l) = Inr (PyFloat a', PyFloat b', l)"
  using assms unfolding weighted_totals_def
proof (induction ms arbitrary: a b)
  case Nil
  then show ?case by simp
next
  case (Cons m ms)
  then obtain a1 b1 where "accumulate m (PyFloat a, PyFloat b, l) = Inr (PyFloat a1, PyFloat b1, l)"
    using accumulate_loc_zero[of m a b l] by auto
  with Cons show ?case by simp
qed

lemma aggregate_total_zero:
  assumes "sum_list (map Lines_of_Code ms) = 0"
  shows "aggregate ms = Inr zero_sample"
proof -
  from assms have "\<forall>m\<in>set ms. Lines_of_Code m = 0" by (simp add: sum_list_eq_0_iff)
  from weighted_totals_loc_zero[OF this, of "Finite 0" "Finite 0" 0]
  show ?thesis by (auto simp: aggregate_def weighted_avg_def zero_sample_def)
qed

lemma py_add_float_eq:
  "py_add (PyFloat t) y = ebind (as_float y) (\<lambda>b. Inr (PyFloat (fadd t b)))"
  by (cases y) simp_all

lemma py_add_is_double:
  "py_add (PyFloat t) y = Inr r \<Longrightarrow> \<exists>t'. r = PyFloat t' \<and> is_double t'"
  by (auto simp: py_add_float_eq ebind_eq_Inr is_double_fadd)

lemma double_totals_iff:
  "double_totals acc \<longleftrightarrow> (\<exists>a b l. acc = (PyFloat a, PyFloat b, l) \<and> is_double a \<and> is_double b)"
  by (cases acc rule: double_totals.cases) auto

lemma accumulate_double:
  assumes "double_totals acc" "accumulate m acc = Inr acc'"
  shows "double_totals acc'"
proof -
  from assms(1) obtain a b l where acc: "acc = (PyFloat a, PyFloat b, l)"
    by (auto simp: double_totals_iff)
  from assms(2) show ?thesis unfolding acc
    by (auto simp: accumulate_def ebind_eq_Inr py_add_float_eq is_double_fadd)
qed

lemma weighted_totals_double:
  assumes "double_totals acc" "weighted_totals ms acc = Inr acc'"
  shows "double_totals acc'"
  using assms unfolding weighted_totals_def
proof (induction ms arbitrary: acc)
  case Nil
  then show ?case by simp
next
  case (Cons m ms)
  then show ?case by (auto simp: ebind_eq_Inr dest: accumulate_double)
qed

lemma accumulate_zero:
  assumes "Ciclomatic_Complexity z = PyInt 0" "Maintainability z = PyInt 0"
    "Lines_of_Code z = 0" "double_totals acc"
  shows "accumulate z acc = Inr acc"
proof -
  from assms(4) obtain a b l where acc: "acc = (PyFloat a, PyFloat b, l)"
    and d: "is_double a" "is_double b"
    by (auto simp: double_totals_iff)
  show ?thesis unfolding acc using assms(1-3) d
    by (simp add: accumulate_def fadd_zero)
qed

lemma weighted_totals_zero:
  assumes "Ciclomatic_Complexity z = PyInt 0" "Maintainability z = PyInt 0"
    "Lines_of_Code z = 0" "double_totals acc"
  shows "weighted_totals (xs @ z # ys) acc = weighted_totals (xs @ ys) acc"
proof (cases "weighted_totals xs acc")
  case (Inl e)
  then show ?thesis by (simp add: weighted_totals_def efold_append)
next
  case (Inr acc')
  with assms(4) have "double_totals acc'" by (rule weighted_totals_double)
  with assms(1-3) have "accumulate z acc' = Inr acc'" by (rule accumulate_zero)
  with Inr show ?thesis by (simp add: weighted_totals_def efold_append)
qed

lemma aggregate_zero_anywhere:
  assumes "Ciclomatic_Complexity z = PyInt 0" "Maintainability z = PyInt 0"
    "Lines_of_Code z = 0"
  shows "aggregate (xs @ z # ys) = aggregate (xs @ ys)"
  using weighted_totals_zero[OF assms, of "(PyFloat (Finite 0), PyFloat (Finite 0), 0)" xs ys]
  by (simp add: aggregate_def is_double_zero)


lemma weighted_sum_error: "weighted_sum x ms acc = Inl e \<Longrightarrow> e = OverflowError"
proof (induction ms arbitrary: acc)
  case Nil
  then show ?case by simp
next
  case (Cons m ms)
  then show ?case by (auto simp: ebind_eq_Inl dest: py_mul_error py_add_error)
qed

lemma weighted_sum_float:
  "weighted_sum x ms (PyFloat t) = Inr r \<Longrightarrow> \<exists>t'. r = PyFloat t'"
proof (induction ms arbitrary: t)
  case Nil
  then show ?case by auto
next
  case (Cons m ms)
  then show ?case by (auto simp: ebind_eq_Inr dest!: py_add_float)
qed

lemma accumulate_steps:
  "accumulate m (tc, tm, tn) =
     ebind (ebind (py_mul (Ciclomatic_Complexity m) (PyInt (int (Lines_of_Code m)))) (py_add tc))
       (\<lambda>tc'. ebind (ebind (py_mul (Maintainability m) (PyInt (int (Lines_of_Code m)))) (py_add tm))
       (\<lambda>tm'. Inr (tc', tm', tn + Lines_of_Code m)))"
  by (simp add: accumulate_def ebind_def split: sum.splits)

lemma weighted_totals_sums:
  "weighted_totals ms (tc, tm, tn) =
     (case weighted_sum Ciclomatic_Complexity ms tc of
        Inl e \<Rightarrow> Inl OverflowError
      | Inr c \<Rightarrow>
          (case weighted_sum Maintainability ms tm of
             Inl e \<Rightarrow> Inl OverflowError
           | Inr m \<Rightarrow> Inr (c, m, tn + sum_list (map Lines_of_Code ms))))"
  unfolding weighted_totals_def
proof (induction ms arbitrary: tc tm tn)
  case Nil
  show ?case by simp
next
  case (Cons m ms)
  let ?c = "ebind (py_mul (Ciclomatic_Complexity m) (PyInt (int (Lines_of_Code m)))) (py_add tc)"
  let ?m = "ebind (py_mul (Maintainability m) (PyInt (int (Lines_of_Code m)))) (py_add tm)"
  show ?case
  proof (cases ?c)
    case (Inl e)
    then have "e = OverflowError" by (auto simp: ebind_eq_Inl dest: py_mul_error py_add_error)
    with Inl show ?thesis by (simp add: accumulate_steps)
  next
    case c: (Inr tc')
    show ?thesis
    proof (cases ?m)
      case (Inl e)
      then have "e = OverflowError" by (auto simp: ebind_eq_Inl dest: py_mul_error py_add_error)
      with Inl c show ?thesis by (simp add: accumulate_steps split: sum.splits)
    next
      case (Inr tm')
      with c show ?thesis by (auto simp: accumulate_steps Cons.IH split: sum.splits)
    qed
  qed
qed

lemma py_truediv_float_int_error:
  assumes "py_truediv (PyFloat t) (PyInt n) = Inl e" "n \<noteq> 0"
  shows "e = OverflowError"
proof -
  from assms(1) have "float_of_int n = Inl e \<or> (\<exists>b. fdiv t b = Inl e)"
    by (auto simp: ebind_eq_Inl)
  then show ?thesis
  proof
    assume "float_of_int n = Inl e"
    then show ?thesis by (rule float_of_int_error)
  next
    assume "\<exists>b. fdiv t b = Inl e"
    then obtain b where "fdiv t b = Inl e" ..
    then have "e = ZeroDivisionError" by (cases t; cases b) (auto split: if_splits)
    with assms py_truediv_float_int[of n t] show ?thesis by simp
  qed
qed

lemma aggregate_formula:
  assumes "0 < sum_list (map Lines_of_Code ms)"
  shows "aggregate ms =
    ebind (weighted_mean Ciclomatic_Complexity ms) (\<lambda>c.
    ebind (weighted_mean Maintainability ms) (\<lambda>m.
    Inr \<lparr>Ciclomatic_Complexity = c, Maintainability = m,
         Lines_of_Code = sum_list (map Lines_of_Code ms)\<rparr>))"
proof -
  let ?L = "sum_list (map Lines_of_Code ms)"
  let ?z = "PyFloat (Finite 0)"
  show ?thesis
  proof (cases "weighted_sum Ciclomatic_Complexity ms ?z")
    case (Inl e)
    with weighted_sum_error[OF Inl] show ?thesis
      by (simp add: aggregate_def weighted_totals_sums weighted_mean_def)
  next
    case c: (Inr c)
    from weighted_sum_float[OF c] obtain tc where tc: "c = PyFloat tc" ..
    show ?thesis
    proof (cases "weighted_sum Maintainability ms ?z")
      case (Inl e)
      from weighted_sum_error[OF Inl] have e: "e = OverflowError" .
      show ?thesis
      proof (cases "py_truediv c (PyInt (int ?L))")
        case l: (Inl e')
        have nz: "int ?L \<noteq> 0" using assms by linarith
        from l have "py_truediv (PyFloat tc) (PyInt (int ?L)) = Inl e'" unfolding tc .
        from this nz have "e' = OverflowError" by (rule py_truediv_float_int_error)
        with Inl c l e show ?thesis
          by (simp add: aggregate_def weighted_totals_sums weighted_mean_def)
      next
        case (Inr q)
        with Inl c e show ?thesis
          by (simp add: aggregate_def weighted_totals_sums weighted_mean_def)
      qed
    next
      case (Inr m)
      with c assms show ?thesis
        by (simp add: aggregate_def weighted_totals_sums weighted_mean_def weighted_avg_def)
    qed
  qed
qed

lemma efold_error:
  assumes "efold f xs s = Inl e"
  shows "\<exists>x s'. x \<in> set xs \<and> f x s' = Inl e"
  using assms
proof (induction xs arbitrary: s)
  case Nil
  then show ?case by simp
next
  case (Cons x xs)
  show ?case
  proof (cases "f x s")
    case (Inl e')
    with Cons.prems have "f x s = Inl e" by simp
    then show ?thesis by (intro exI[of _ x] exI[of _ s]) simp
  next
    case (Inr b)
    with Cons.prems have "efold f xs b = Inl e" by simp
    from Cons.IH[OF this] obtain y s' where "y \<in> set xs" "f y s' = Inl e" by blast
    then show ?thesis by (intro exI[of _ y] exI[of _ s']) simp
  qed
qed

lemma generate_project_metrics_no_zero_division:
  "generate_project_metrics s \<noteq> Inl ZeroDivisionError"
  using aggregate_no_zero_division[of "metrics_by_file s"]
  by (auto simp: generate_project_metrics_def ebind_eq_Inl)

lemma generate_history_metrics_no_zero_division:
  "generate_history_metrics s \<noteq> Inl ZeroDivisionError"
proof
  assume "generate_history_metrics s = Inl ZeroDivisionError"
  then obtain d s' where
    "date_row (group_by_date (history_metrics_by_file s)) d s' = Inl ZeroDivisionError"
    unfolding generate_history_metrics_def Let_def by (blast dest: efold_error)
  then show False using aggregate_no_zero_division
    by (auto simp: date_row_def ebind_eq_Inl)
qed

text \<open>
  C1. Whenever the lines of code of the samples add up to 0 (the empty list included),
  the aggregate is the sample with complexity 0, maintainability 0 and 0 lines of code.
  The aggregate never raises \<^verbatim>\<open>ZeroDivisionError\<close>, whatever the samples, and neither
  does either of the two methods that compute it.
\<close>

theorem aggregate_zero_total:
  "(sum_list (map Lines_of_Code ms) = 0 \<longrightarrow> aggregate ms = Inr zero_sample) \<and>
   aggregate ms \<noteq> Inl ZeroDivisionError \<and>
   generate_project_metrics s \<noteq> Inl ZeroDivisionError \<and>
   generate_history_metrics s \<noteq> Inl ZeroDivisionError"
  using aggregate_total_zero[of ms] aggregate_no_zero_division[of ms]
    generate_project_metrics_no_zero_division[of s]
    generate_history_metrics_no_zero_division[of s]
  by blast

theorem aggregate_zero_total_witness:
  "sum_list (map Lines_of_Code
     [\<lparr>Ciclomatic_Complexity = PyFloat (dbl 3 (- 1)), Maintainability = PyFloat (dbl 100 0),
       Lines_of_Code = 0\<rparr>, zero_sample]) = 0 \<and>
   aggregate
     [\<lparr>Ciclomatic_Complexity = PyFloat (dbl 3 (- 1)), Maintainability = PyFloat (dbl 100 0),
       Lines_of_Code = 0\<rparr>, zero_sample] = Inr zero_sample"
  using aggregate_zero_total
    [of "[\<lparr>Ciclomatic_Complexity = PyFloat (dbl 3 (- 1)), Maintainability = PyFloat (dbl 100 0),
           Lines_of_Code = 0\<rparr>, zero_sample]"]
  by (simp add: zero_sample_def)

text \<open>
  C9. Appending the all-zero sample, which is what a failed extraction yields, leaves the
  aggregate as it is: the same complexity, maintainability and lines of code, or the same
  exception. This holds for the bare sample and for the sample with its \<^verbatim>\<open>Date\<close> and
  \<^verbatim>\<open>File\<close> keys, as the two aggregation sites see it.
\<close>

theorem zero_sample_neutral:
  "aggregate (ms @ [zero_sample]) = aggregate ms \<and>
   aggregate (ds @ [set_Date zero_sample date]) = aggregate ds \<and>
   aggregate (fs @ [set_File (set_Date zero_sample date) file]) = aggregate fs"
  using aggregate_zero_anywhere[of zero_sample ms "[]"]
    aggregate_zero_anywhere[of "set_Date zero_sample date" ds "[]"]
    aggregate_zero_anywhere[of "set_File (set_Date zero_sample date) file" fs "[]"]
  by (simp add: zero_sample_def set_Date_def set_File_def)


subsection \<open>Integer-valued metrics: the arithmetic is exact\<close>

lemma dbl_zero [simp]: "dbl 0 e = Finite 0"
  by (simp add: dbl_def)

lemma weighted_step_int:
  assumes "int_valued v c" "0 \<le> c" "0 \<le> t" "t + c * int l \<le> 2 ^ 53" "int l \<le> 2 ^ 53"
  shows "ebind (py_mul v (PyInt (int l))) (py_add (PyFloat (dbl t 0)))
    = Inr (PyFloat (dbl (t + c * int l) 0))"
proof -
  have cl: "\<bar>c * int l\<bar> \<le> 2 ^ 53" "\<bar>t + c * int l\<bar> \<le> 2 ^ 53" "\<bar>int l\<bar> \<le> 2 ^ 53"
    using assms by auto
  show ?thesis
  proof (cases v)
    case (PyInt a)
    with assms have "a = c" by simp
    then show ?thesis using PyInt cl
      by (simp add: float_of_int_exact fadd_int)
  next
    case (PyFloat x)
    with assms have "x = dbl c 0" by simp
    then show ?thesis using PyFloat cl
      by (simp add: float_of_int_exact fmul_int fadd_int)
  qed
qed

lemma weighted_sum_int:
  assumes "\<forall>m\<in>set ms. int_valued (x m) (v m) \<and> 0 \<le> v m" "0 \<le> t"
    "t + (\<Sum>m\<leftarrow>ms. v m * int (Lines_of_Code m)) \<le> 2 ^ 53"
    "int (sum_list (map Lines_of_Code ms)) \<le> 2 ^ 53"
  shows "weighted_sum x ms (PyFloat (dbl t 0))
    = Inr (PyFloat (dbl (t + (\<Sum>m\<leftarrow>ms. v m * int (Lines_of_Code m))) 0))"
  using assms
proof (induction ms arbitrary: t)
  case Nil
  then show ?case by simp
next
  case (Cons m ms)
  let ?p = "v m * int (Lines_of_Code m)"
  let ?rest = "\<Sum>m\<leftarrow>ms. v m * int (Lines_of_Code m)"
  have rest: "0 \<le> ?rest" using Cons.prems(1) by (intro sum_list_nonneg) auto
  have p: "0 \<le> ?p" using Cons.prems(1) by simp
  have 1: "t + ?p \<le> 2 ^ 53" using Cons.prems(3) rest by simp
  have 2: "int (Lines_of_Code m) \<le> 2 ^ 53" using Cons.prems(4) by simp
  have step: "ebind (py_mul (x m) (PyInt (int (Lines_of_Code m)))) (py_add (PyFloat (dbl t 0)))
    = Inr (PyFloat (dbl (t + ?p) 0))"
    using Cons.prems(1,2) 1 2 by (intro weighted_step_int) auto
  have "weighted_sum x ms (PyFloat (dbl (t + ?p) 0))
    = Inr (PyFloat (dbl (t + ?p + ?rest) 0))"
    using Cons.prems p by (intro Cons.IH) (auto simp: add.assoc)
  with step show ?case by (simp add: add.assoc)
qed

lemma weighted_mean_int:
  assumes "\<forall>m\<in>set ms. int_valued (x m) (v m) \<and> 0 \<le> v m"
    "(\<Sum>m\<leftarrow>ms. v m * int (Lines_of_Code m)) \<le> 2 ^ 53"
    "int (sum_list (map Lines_of_Code ms)) \<le> 2 ^ 53"
  shows "weighted_mean x ms =
    ebind (fdiv (dbl (\<Sum>m\<leftarrow>ms. v m * int (Lines_of_Code m)) 0)
             (dbl (int (sum_list (map Lines_of_Code ms))) 0)) (\<lambda>q. Inr (PyFloat q))"
proof -
  have "weighted_sum x ms (PyFloat (dbl 0 0))
    = Inr (PyFloat (dbl (0 + (\<Sum>m\<leftarrow>ms. v m * int (Lines_of_Code m))) 0))"
    using assms by (intro weighted_sum_int) auto
  moreover have "float_of_int (int (sum_list (map Lines_of_Code ms)))
    = Inr (dbl (int (sum_list (map Lines_of_Code ms))) 0)"
    using assms(3) by (intro float_of_int_exact) simp
  ultimately show ?thesis by (simp add: weighted_mean_def)
qed

lemma same_complexity_mean:
  assumes "\<forall>m\<in>set ms. int_valued (x m) c" "0 \<le> c"
    "0 < sum_list (map Lines_of_Code ms)"
    "c * int (sum_list (map Lines_of_Code ms)) \<le> 2 ^ 53"
    "int (sum_list (map Lines_of_Code ms)) \<le> 2 ^ 53"
  shows "weighted_mean x ms = Inr (PyFloat (dbl c 0))"
proof -
  let ?L = "int (sum_list (map Lines_of_Code ms))"
  have sum: "(\<Sum>m\<leftarrow>ms. c * int (Lines_of_Code m)) = c * ?L"
    by (induction ms) (simp_all add: distrib_left)
  have "weighted_mean x ms =
    ebind (fdiv (dbl (\<Sum>m\<leftarrow>ms. c * int (Lines_of_Code m)) 0) (dbl ?L 0)) (\<lambda>q. Inr (PyFloat q))"
    using assms by (intro weighted_mean_int) (auto simp: sum)
  moreover have "fdiv (dbl (c * ?L) 0) (dbl ?L 0) = Inr (dbl c 0)"
  proof (rule fdiv_int)
    have "c * 1 \<le> c * ?L" using assms by (intro mult_left_mono) auto
    then show "\<bar>c\<bar> \<le> 2 ^ 53" using assms by simp
    show "0 < ?L" using assms by simp
  qed
  ultimately show ?thesis by (simp add: sum)
qed

subsection \<open>What does not depend on the order of the samples\<close>

lemma aggregate_error: "aggregate ms = Inl e \<Longrightarrow> e = OverflowError"
proof (cases "weighted_totals ms (PyFloat (Finite 0), PyFloat (Finite 0), 0)")
  case (Inl e')
  assume "aggregate ms = Inl e"
  with Inl weighted_totals_error[OF Inl] show ?thesis by (simp add: aggregate_def)
next
  case (Inr acc)
  assume a: "aggregate ms = Inl e"
  from weighted_totals_float[OF Inr] obtain a' b' l where acc: "acc = (PyFloat a', PyFloat b', l)"
    by blast
  have "e = OverflowError" if "weighted_avg (PyFloat t) l = Inl e" for t
    using that py_truediv_float_int_error[of t "int l" e]
    by (cases "l = 0") (simp_all add: weighted_avg_def)
  with a Inr acc show ?thesis by (auto simp: aggregate_def ebind_eq_Inl)
qed

lemma sum_list_mset_cong:
  fixes f :: "'a \<Rightarrow> 'b::comm_monoid_add"
  assumes "mset xs = mset ys"
  shows "sum_list (map f xs) = sum_list (map f ys)"
proof -
  have "sum_list (map f xs) = sum_mset (image_mset f (mset xs))"
    by (simp add: sum_mset_sum_list[symmetric])
  also have "\<dots> = sum_mset (image_mset f (mset ys))" using assms by simp
  also have "\<dots> = sum_list (map f ys)" by (simp add: sum_mset_sum_list[symmetric])
  finally show ?thesis .
qed

lemma aggregate_int_valued:
  assumes "\<forall>m\<in>set ms. int_valued (Ciclomatic_Complexity m) (vc m) \<and> 0 \<le> vc m \<and>
      int_valued (Maintainability m) (vm m) \<and> 0 \<le> vm m"
    "(\<Sum>m\<leftarrow>ms. vc m * int (Lines_of_Code m)) \<le> 2 ^ 53"
    "(\<Sum>m\<leftarrow>ms. vm m * int (Lines_of_Code m)) \<le> 2 ^ 53"
    "int (sum_list (map Lines_of_Code ms)) \<le> 2 ^ 53"
    "0 < sum_list (map Lines_of_Code ms)"
  shows "aggregate ms =
    ebind (ebind (fdiv (dbl (\<Sum>m\<leftarrow>ms. vc m * int (Lines_of_Code m)) 0)
             (dbl (int (sum_list (map Lines_of_Code ms))) 0)) (\<lambda>q. Inr (PyFloat q))) (\<lambda>c.
    ebind (ebind (fdiv (dbl (\<Sum>m\<leftarrow>ms. vm m * int (Lines_of_Code m)) 0)
             (dbl (int (sum_list (map Lines_of_Code ms))) 0)) (\<lambda>q. Inr (PyFloat q))) (\<lambda>m.
    Inr \<lparr>Ciclomatic_Complexity = c, Maintainability = m,
         Lines_of_Code = sum_list (map Lines_of_Code ms)\<rparr>))"
proof -
  have c: "weighted_mean Ciclomatic_Complexity ms =
    ebind (fdiv (dbl (\<Sum>m\<leftarrow>ms. vc m * int (Lines_of_Code m)) 0)
             (dbl (int (sum_list (map Lines_of_Code ms))) 0)) (\<lambda>q. Inr (PyFloat q))"
    using assms by (intro weighted_mean_int) auto
  have m: "weighted_mean Maintainability ms =
    ebind (fdiv (dbl (\<Sum>m\<leftarrow>ms. vm m * int (Lines_of_Code m)) 0)
             (dbl (int (sum_list (map Lines_of_Code ms))) 0)) (\<lambda>q. Inr (PyFloat q))"
    using assms by (intro weighted_mean_int) auto
  show ?thesis unfolding aggregate_formula[OF assms(5)] c m ..
qed

lemma py_add_float_isl: "isl (py_add (PyFloat t) p) = isl (as_float p)"
  by (cases "as_float p") (simp_all add: py_add_float_eq)

lemma step_isl:
  "isl (ebind (py_mul v (PyInt (int l))) (py_add (PyFloat t))) = isl (product_as_float v l)"
proof (cases "py_mul v (PyInt (int l))")
  case (Inl e)
  then show ?thesis by (simp add: product_as_float_def)
next
  case (Inr p)
  then show ?thesis using py_add_float_isl[of t p] by (simp add: product_as_float_def)
qed

lemma accumulate_isl:
  "isl (accumulate m (PyFloat a, PyFloat b, n)) \<longleftrightarrow>
     isl (product_as_float (Ciclomatic_Complexity m) (Lines_of_Code m)) \<or>
     isl (product_as_float (Maintainability m) (Lines_of_Code m))"
proof -
  let ?c = "ebind (py_mul (Ciclomatic_Complexity m) (PyInt (int (Lines_of_Code m)))) (py_add (PyFloat a))"
  let ?m = "ebind (py_mul (Maintainability m) (PyInt (int (Lines_of_Code m)))) (py_add (PyFloat b))"
  have "isl (accumulate m (PyFloat a, PyFloat b, n)) \<longleftrightarrow> isl ?c \<or> isl ?m"
    unfolding accumulate_steps by (cases ?c; cases ?m) simp_all
  then show ?thesis by (simp only: step_isl)
qed

lemma weighted_totals_isl:
  "isl (weighted_totals ms (PyFloat a, PyFloat b, n)) \<longleftrightarrow>
     (\<exists>m\<in>set ms. isl (product_as_float (Ciclomatic_Complexity m) (Lines_of_Code m)) \<or>
        isl (product_as_float (Maintainability m) (Lines_of_Code m)))"
  unfolding weighted_totals_def
proof (induction ms arbitrary: a b n)
  case Nil
  show ?case by simp
next
  case (Cons m ms)
  show ?case
  proof (cases "accumulate m (PyFloat a, PyFloat b, n)")
    case (Inl e)
    then have "isl (accumulate m (PyFloat a, PyFloat b, n))" by simp
    then have "isl (product_as_float (Ciclomatic_Complexity m) (Lines_of_Code m)) \<or>
      isl (product_as_float (Maintainability m) (Lines_of_Code m))"
      by (simp only: accumulate_isl)
    with Inl show ?thesis by auto
  next
    case (Inr acc)
    then have "\<not> isl (accumulate m (PyFloat a, PyFloat b, n))" by simp
    then have no: "\<not> (isl (product_as_float (Ciclomatic_Complexity m) (Lines_of_Code m)) \<or>
      isl (product_as_float (Maintainability m) (Lines_of_Code m)))"
      using accumulate_isl[of m a b n] by blast
    from accumulate_float[OF Inr] obtain a' b' where "acc = (PyFloat a', PyFloat b', n + Lines_of_Code m)"
      by blast
    with Inr no Cons.IH[of a' b' "n + Lines_of_Code m"] show ?thesis by auto
  qed
qed

lemma fdiv_isl: "isl (fdiv x y) \<longleftrightarrow> y = Finite 0"
  by (cases x; cases y) (auto split: if_splits)

lemma weighted_avg_isl:
  "isl (weighted_avg (PyFloat t) l) \<longleftrightarrow> l \<noteq> 0 \<and> isl (float_of_int (int l))"
proof (cases "l = 0")
  case True
  then show ?thesis by (simp add: weighted_avg_def)
next
  case False
  show ?thesis
  proof (cases "float_of_int (int l)")
    case (Inl e)
    with False show ?thesis by (simp add: weighted_avg_def)
  next
    case (Inr b)
    with False float_of_int_nonzero[of "int l"] have "b \<noteq> Finite 0" by auto
    then have "\<not> isl (fdiv t b)" by (simp add: fdiv_isl)
    then obtain q where "fdiv t b = Inr q" by (cases "fdiv t b") auto
    with False Inr show ?thesis by (simp add: weighted_avg_def)
  qed
qed

lemma aggregate_loc:
  "map_sum id Lines_of_Code (aggregate ms) =
     (if (\<exists>m\<in>set ms. isl (product_as_float (Ciclomatic_Complexity m) (Lines_of_Code m)) \<or>
            isl (product_as_float (Maintainability m) (Lines_of_Code m))) \<or>
         (sum_list (map Lines_of_Code ms) \<noteq> 0 \<and>
            isl (float_of_int (int (sum_list (map Lines_of_Code ms)))))
      then Inl OverflowError else Inr (sum_list (map Lines_of_Code ms)))"
proof (cases "weighted_totals ms (PyFloat (Finite 0), PyFloat (Finite 0), 0)")
  case (Inl e)
  then have "isl (weighted_totals ms (PyFloat (Finite 0), PyFloat (Finite 0), 0))" by simp
  then have "\<exists>m\<in>set ms. isl (product_as_float (Ciclomatic_Complexity m) (Lines_of_Code m)) \<or>
        isl (product_as_float (Maintainability m) (Lines_of_Code m))"
    by (simp only: weighted_totals_isl)
  moreover have "aggregate ms = Inl OverflowError"
    using Inl weighted_totals_error[OF Inl] by (simp add: aggregate_def)
  ultimately show ?thesis by simp
next
  case (Inr acc)
  let ?L = "sum_list (map Lines_of_Code ms)"
  from weighted_totals_float[OF Inr] obtain a b where acc: "acc = (PyFloat a, PyFloat b, ?L)"
    by auto
  from Inr have "\<not> isl (weighted_totals ms (PyFloat (Finite 0), PyFloat (Finite 0), 0))" by simp
  then have no: "\<not> (\<exists>m\<in>set ms. isl (product_as_float (Ciclomatic_Complexity m) (Lines_of_Code m)) \<or>
        isl (product_as_float (Maintainability m) (Lines_of_Code m)))"
    using weighted_totals_isl[of ms "Finite 0" "Finite 0" 0] by blast
  show ?thesis
  proof (cases "?L \<noteq> 0 \<and> isl (float_of_int (int ?L))")
    case True
    then have "isl (weighted_avg (PyFloat a) ?L)" using weighted_avg_isl[of a ?L] by blast
    then obtain e where e: "weighted_avg (PyFloat a) ?L = Inl e"
      by (cases "weighted_avg (PyFloat a) ?L") auto
    then have "aggregate ms = Inl e" using Inr acc by (simp add: aggregate_def)
    with aggregate_error[of ms e] True show ?thesis by simp
  next
    case False
    then have "\<not> isl (weighted_avg (PyFloat a) ?L)" "\<not> isl (weighted_avg (PyFloat b) ?L)"
      using weighted_avg_isl[of a ?L] weighted_avg_isl[of b ?L] by blast+
    then obtain wc wm where "weighted_avg (PyFloat a) ?L = Inr wc" "weighted_avg (PyFloat b) ?L = Inr wm"
      by (cases "weighted_avg (PyFloat a) ?L"; cases "weighted_avg (PyFloat b) ?L") auto
    then have "aggregate ms = Inr \<lparr>Ciclomatic_Complexity = wc, Maintainability = wm, Lines_of_Code = ?L\<rparr>"
      using Inr acc by (simp add: aggregate_def)
    with no False show ?thesis by simp
  qed
qed

lemma aggregate_loc_mset:
  assumes "mset ms' = mset ms"
  shows "map_sum id Lines_of_Code (aggregate ms') = map_sum id Lines_of_Code (aggregate ms)"
proof -
  have "set ms' = set ms" using assms by (rule mset_eq_setD)
  moreover have "sum_list (map Lines_of_Code ms') = sum_list (map Lines_of_Code ms)"
    using assms by (rule sum_list_mset_cong)
  ultimately show ?thesis unfolding aggregate_loc by simp
qed

lemma product_as_float_fits:
  assumes "fits v l" "int l \<le> 2 ^ 53"
  shows "\<not> isl (product_as_float v l)"
proof (cases v)
  case (PyInt a)
  with assms have "float_of_int (a * int l) = Inr (dbl (a * int l) 0)"
    by (intro float_of_int_exact) simp
  with PyInt show ?thesis by (simp add: product_as_float_def)
next
  case (PyFloat x)
  have "float_of_int (int l) = Inr (dbl (int l) 0)" using assms by (intro float_of_int_exact) simp
  with PyFloat show ?thesis by (simp add: product_as_float_def)
qed

lemma aggregate_returns:
  assumes "\<forall>m\<in>set ms. fits (Ciclomatic_Complexity m) (Lines_of_Code m) \<and>
      fits (Maintainability m) (Lines_of_Code m)"
    "int (sum_list (map Lines_of_Code ms)) \<le> 2 ^ 53"
  shows "\<exists>r. aggregate ms = Inr r"
proof -
  have le: "int (Lines_of_Code m) \<le> 2 ^ 53" if "m \<in> set ms" for m
  proof -
    have "Lines_of_Code m \<le> sum_list (map Lines_of_Code ms)"
      using that by (simp add: member_le_sum_list)
    with assms(2) show ?thesis by linarith
  qed
  have 1: "\<not> (\<exists>m\<in>set ms. isl (product_as_float (Ciclomatic_Complexity m) (Lines_of_Code m)) \<or>
        isl (product_as_float (Maintainability m) (Lines_of_Code m)))"
    using assms(1) le by (auto dest!: product_as_float_fits)
  have "float_of_int (int (sum_list (map Lines_of_Code ms))) =
    Inr (dbl (int (sum_list (map Lines_of_Code ms))) 0)"
    using assms(2) by (intro float_of_int_exact) simp
  then have 2: "\<not> isl (float_of_int (int (sum_list (map Lines_of_Code ms))))" by simp
  from 1 2 have "map_sum id Lines_of_Code (aggregate ms) = Inr (sum_list (map Lines_of_Code ms))"
    unfolding aggregate_loc by simp
  then show ?thesis by (cases "aggregate ms") auto
qed

lemma dbl_eq_iff:
  assumes "- 1074 \<le> e0" "e0 \<le> ea" "e0 \<le> eb"
  shows "dbl a ea = dbl b eb \<longleftrightarrow> a * 2 ^ nat (ea - e0) = b * 2 ^ nat (eb - e0)"
  unfolding dbl_aligned[OF assms(1,2)] dbl_aligned[OF assms(1,3)] by simp

subsection \<open>The aggregate of some given files\<close>

text \<open>
  Each step below is one operation of Python's on doubles, with its correctly rounded
  result: \<open>dbl 3152519739159347 (- 51)\<close> is \<^verbatim>\<open>1.4\<close>, the mean complexity of five blocks
  of complexities 1, 1, 1, 2 and 2; \<open>dbl 6004799503160661 (- 52)\<close> is \<^verbatim>\<open>4/3\<close> and
  \<open>dbl 7505999378950827 (- 52)\<close> is \<^verbatim>\<open>5/3\<close>.
\<close>

lemma mean_five_blocks: "mean [1, 1, 1, 2, 2] = Inr (PyFloat (dbl 3152519739159347 (- 51)))"
proof -
  have "fdiv (dbl 7 0) (dbl 5 0) = Inr (dbl 6305039478318694 (- 52))"
    by (rule fdiv_dbl[where s=0 and t=52]) (simp_all add: rhe_div_def Let_def)
  also have "dbl 6305039478318694 (- 52) = dbl 3152519739159347 (- 51)"
    by (rule dbl_eqI[where k=1]) simp_all
  finally have "fdiv (dbl 7 0) (dbl 5 0) = Inr (Finite (3152519739159347 * 2 ^ nat (- 51 + 1074)))"
    by (simp only: dbl_def)
  then have "py_truediv (PyInt 7) (PyInt 5) = Inr (PyFloat (Finite (3152519739159347 * 2 ^ nat (- 51 + 1074))))"
    by (intro py_truediv_int) simp_all
  then show ?thesis by (simp add: mean_def dbl_def)
qed

lemma aggregate_one_file:
  "aggregate
     [\<lparr>Ciclomatic_Complexity = PyFloat (dbl 3152519739159347 (- 51)), Maintainability = PyFloat (dbl 100 0), Lines_of_Code = 24\<rparr>]
   = Inr \<lparr>Ciclomatic_Complexity = PyFloat (dbl 6305039478318693 (- 52)), Maintainability = PyFloat (dbl 100 0),
          Lines_of_Code = 24\<rparr>"
proof -
  have f1: "float_of_int 24 = Inr (dbl 24 0)"
    by (rule float_of_int_exact) simp
  have "fmul (dbl 3152519739159347 (- 51)) (dbl 24 0) = (dbl 4728779608739020 (- 47))"
    by (rule fmul_dbl[where s=4]) (simp_all add: rhe_div_def Let_def)
  also have "(dbl 4728779608739020 (- 47)) = (dbl 1182194902184755 (- 45))"
    by (rule dbl_eqI[where k=2]) simp_all
  finally have f2: "fmul (dbl 3152519739159347 (- 51)) (dbl 24 0) = (dbl 1182194902184755 (- 45))" .
  have f3: "fadd (Finite 0) (dbl 1182194902184755 (- 45)) = (dbl 1182194902184755 (- 45))"
    by (rule fadd_zero_left, rule is_double_dbl) simp_all
  have f4: "fmul (dbl 100 0) (dbl 24 0) = (dbl 2400 0)"
    by (rule fmul_dbl_exact) simp_all
  have f5: "fadd (Finite 0) (dbl 2400 0) = (dbl 2400 0)"
    by (rule fadd_zero_left, rule is_double_dbl) simp_all
  have f6: "fdiv (dbl 1182194902184755 (- 45)) (dbl 24 0) = Inr (dbl 6305039478318693 (- 52))"
    by (rule fdiv_dbl[where s=0 and t=7]) (simp_all add: rhe_div_def Let_def)
  have "fdiv (dbl 2400 0) (dbl 24 0) = Inr (dbl 7036874417766400 (- 46))"
    by (rule fdiv_dbl[where s=0 and t=46]) (simp_all add: rhe_div_def Let_def)
  also have "(dbl 7036874417766400 (- 46)) = (dbl 100 0)"
    by (rule dbl_eqI[where k=46]) simp_all
  finally have f7: "fdiv (dbl 2400 0) (dbl 24 0) = Inr (dbl 100 0)" .
  show ?thesis
    by (simp add: aggregate_def weighted_totals_def accumulate_def weighted_avg_def
        f1 f2 f3 f4 f5 f6 f7)
qed

lemma aggregate_three_files:
  "aggregate
     [\<lparr>Ciclomatic_Complexity = PyFloat (dbl 6004799503160661 (- 52)), Maintainability = PyFloat (dbl 75 0), Lines_of_Code = 10\<rparr>,
      \<lparr>Ciclomatic_Complexity = PyInt 2, Maintainability = PyFloat (dbl 50 0), Lines_of_Code = 24\<rparr>,
      \<lparr>Ciclomatic_Complexity = PyFloat (dbl 7505999378950827 (- 52)), Maintainability = PyFloat (dbl 100 0), Lines_of_Code = 100\<rparr>]
   = Inr \<lparr>Ciclomatic_Complexity = PyFloat (dbl 957855144627307 (- 49)), Maintainability = PyFloat (dbl 6275421588978245 (- 46)),
          Lines_of_Code = 134\<rparr>"
proof -
  have f1: "float_of_int 10 = Inr (dbl 10 0)"
    by (rule float_of_int_exact) simp
  have "fmul (dbl 6004799503160661 (- 52)) (dbl 10 0) = (dbl 7505999378950826 (- 49))"
    by (rule fmul_dbl[where s=3]) (simp_all add: rhe_div_def Let_def)
  also have "(dbl 7505999378950826 (- 49)) = (dbl 3752999689475413 (- 48))"
    by (rule dbl_eqI[where k=1]) simp_all
  finally have f2: "fmul (dbl 6004799503160661 (- 52)) (dbl 10 0) = (dbl 3752999689475413 (- 48))" .
  have f3: "fadd (Finite 0) (dbl 3752999689475413 (- 48)) = (dbl 3752999689475413 (- 48))"
    by (rule fadd_zero_left, rule is_double_dbl) simp_all
  have f4: "fmul (dbl 75 0) (dbl 10 0) = (dbl 750 0)"
    by (rule fmul_dbl_exact) simp_all
  have f5: "fadd (Finite 0) (dbl 750 0) = (dbl 750 0)"
    by (rule fadd_zero_left, rule is_double_dbl) simp_all
  have f6: "float_of_int 48 = Inr (dbl 48 0)"
    by (rule float_of_int_exact) simp
  have "fadd (dbl 3752999689475413 (- 48)) (dbl 48 0) = (dbl 8631899285793450 (- 47))"
    by (rule fadd_dbl[where ?e0.0="-48" and s=1 and c=17263798571586901]) (simp_all add: rhe_div_def Let_def)
  also have "(dbl 8631899285793450 (- 47)) = (dbl 4315949642896725 (- 46))"
    by (rule dbl_eqI[where k=1]) simp_all
  finally have f7: "fadd (dbl 3752999689475413 (- 48)) (dbl 48 0) = (dbl 4315949642896725 (- 46))" .
  have f8: "float_of_int 24 = Inr (dbl 24 0)"
    by (rule float_of_int_exact) simp
  have f9: "fmul (dbl 50 0) (dbl 24 0) = (dbl 1200 0)"
    by (rule fmul_dbl_exact) simp_all
  have f10: "fadd (dbl 750 0) (dbl 1200 0) = (dbl 1950 0)"
    by (rule fadd_dbl_exact[where ?e0.0="0" and c=1950]) simp_all
  have f11: "float_of_int 100 = Inr (dbl 100 0)"
    by (rule float_of_int_exact) simp
  have "fmul (dbl 7505999378950827 (- 52)) (dbl 100 0) = (dbl 5864062014805334 (- 45))"
    by (rule fmul_dbl[where s=7]) (simp_all add: rhe_div_def Let_def)
  also have "(dbl 5864062014805334 (- 45)) = (dbl 2932031007402667 (- 44))"
    by (rule dbl_eqI[where k=1]) simp_all
  finally have f12: "fmul (dbl 7505999378950827 (- 52)) (dbl 100 0) = (dbl 2932031007402667 (- 44))" .
  have "fadd (dbl 4315949642896725 (- 46)) (dbl 2932031007402667 (- 44)) = (dbl 8022036836253696 (- 45))"
    by (rule fadd_dbl[where ?e0.0="-46" and s=1 and c=16044073672507393]) (simp_all add: rhe_div_def Let_def)
  also have "(dbl 8022036836253696 (- 45)) = (dbl 228 0)"
    by (rule dbl_eqI[where k=45]) simp_all
  finally have f13: "fadd (dbl 4315949642896725 (- 46)) (dbl 2932031007402667 (- 44)) = (dbl 228 0)" .
  have f14: "fmul (dbl 100 0) (dbl 100 0) = (dbl 10000 0)"
    by (rule fmul_dbl_exact) simp_all
  have f15: "fadd (dbl 1950 0) (dbl 10000 0) = (dbl 11950 0)"
    by (rule fadd_dbl_exact[where ?e0.0="0" and c=11950]) simp_all
  have f16: "float_of_int 134 = Inr (dbl 134 0)"
    by (rule float_of_int_exact) simp
  have "fdiv (dbl 228 0) (dbl 134 0) = Inr (dbl 7662841157018456 (- 52))"
    by (rule fdiv_dbl[where s=0 and t=52]) (simp_all add: rhe_div_def Let_def)
  also have "(dbl 7662841157018456 (- 52)) = (dbl 957855144627307 (- 49))"
    by (rule dbl_eqI[where k=3]) simp_all
  finally have f17: "fdiv (dbl 228 0) (dbl 134 0) = Inr (dbl 957855144627307 (- 49))" .
  have f18: "fdiv (dbl 11950 0) (dbl 134 0) = Inr (dbl 6275421588978245 (- 46))"
    by (rule fdiv_dbl[where s=0 and t=46]) (simp_all add: rhe_div_def Let_def)
  show ?thesis
    by (simp add: aggregate_def weighted_totals_def accumulate_def weighted_avg_def
        f1 f2 f3 f4 f5 f6 f7 f8 f9 f10 f11 f12 f13 f14 f15 f16 f17 f18)
qed

lemma aggregate_three_files_swapped:
  "aggregate
     [\<lparr>Ciclomatic_Complexity = PyFloat (dbl 6004799503160661 (- 52)), Maintainability = PyFloat (dbl 75 0), Lines_of_Code = 10\<rparr>,
      \<lparr>Ciclomatic_Complexity = PyFloat (dbl 7505999378950827 (- 52)), Maintainability = PyFloat (dbl 100 0), Lines_of_Code = 100\<rparr>,
      \<lparr>Ciclomatic_Complexity = PyInt 2, Maintainability = PyFloat (dbl 50 0), Lines_of_Code = 24\<rparr>]
   = Inr \<lparr>Ciclomatic_Complexity = PyFloat (dbl 7662841157018457 (- 52)), Maintainability = PyFloat (dbl 6275421588978245 (- 46)),
          Lines_of_Code = 134\<rparr>"
proof -
  have f1: "float_of_int 10 = Inr (dbl 10 0)"
    by (rule float_of_int_exact) simp
  have "fmul (dbl 6004799503160661 (- 52)) (dbl 10 0) = (dbl 7505999378950826 (- 49))"
    by (rule fmul_dbl[where s=3]) (simp_all add: rhe_div_def Let_def)
  also have "(dbl 7505999378950826 (- 49)) = (dbl 3752999689475413 (- 48))"
    by (rule dbl_eqI[where k=1]) simp_all
  finally have f2: "fmul (dbl 6004799503160661 (- 52)) (dbl 10 0) = (dbl 3752999689475413 (- 48))" .
  have f3: "fadd (Finite 0) (dbl 3752999689475413 (- 48)) = (dbl 3752999689475413 (- 48))"
    by (rule fadd_zero_left, rule is_double_dbl) simp_all
  have f4: "fmul (dbl 75 0) (dbl 10 0) = (dbl 750 0)"
    by (rule fmul_dbl_exact) simp_all
  have f5: "fadd (Finite 0) (dbl 750 0) = (dbl 750 0)"
    by (rule fadd_zero_left, rule is_double_dbl) simp_all
  have f6: "float_of_int 100 = Inr (dbl 100 0)"
    by (rule float_of_int_exact) simp
  have "fmul (dbl 7505999378950827 (- 52)) (dbl 100 0) = (dbl 5864062014805334 (- 45))"
    by (rule fmul_dbl[where s=7]) (simp_all add: rhe_div_def Let_def)
  also have "(dbl 5864062014805334 (- 45)) = (dbl 2932031007402667 (- 44))"
    by (rule dbl_eqI[where k=1]) simp_all
  finally have f7: "fmul (dbl 7505999378950827 (- 52)) (dbl 100 0) = (dbl 2932031007402667 (- 44))" .
  have f8: "fadd (dbl 3752999689475413 (- 48)) (dbl 2932031007402667 (- 44)) = (dbl 6333186975989761 (- 45))"
    by (rule fadd_dbl[where ?e0.0="-48" and s=3 and c=50665495807918085]) (simp_all add: rhe_div_def Let_def)
  have f9: "fmul (dbl 100 0) (dbl 100 0) = (dbl 10000 0)"
    by (rule fmul_dbl_exact) simp_all
  have f10: "fadd (dbl 750 0) (dbl 10000 0) = (dbl 10750 0)"
    by (rule fadd_dbl_exact[where ?e0.0="0" and c=10750]) simp_all
  have f11: "float_of_int 48 = Inr (dbl 48 0)"
    by (rule float_of_int_exact) simp
  have f12: "fadd (dbl 6333186975989761 (- 45)) (dbl 48 0) = (dbl 8022036836253697 (- 45))"
    by (rule fadd_dbl_exact[where ?e0.0="-45" and c=8022036836253697]) simp_all
  have f13: "float_of_int 24 = Inr (dbl 24 0)"
    by (rule float_of_int_exact) simp
  have f14: "fmul (dbl 50 0) (dbl 24 0) = (dbl 1200 0)"
    by (rule fmul_dbl_exact) simp_all
  have f15: "fadd (dbl 10750 0) (dbl 1200 0) = (dbl 11950 0)"
    by (rule fadd_dbl_exact[where ?e0.0="0" and c=11950]) simp_all
  have f16: "float_of_int 134 = Inr (dbl 134 0)"
    by (rule float_of_int_exact) simp
  have f17: "fdiv (dbl 8022036836253697 (- 45)) (dbl 134 0) = Inr (dbl 7662841157018457 (- 52))"
    by (rule fdiv_dbl[where s=0 and t=7]) (simp_all add: rhe_div_def Let_def)
  have f18: "fdiv (dbl 11950 0) (dbl 134 0) = Inr (dbl 6275421588978245 (- 46))"
    by (rule fdiv_dbl[where s=0 and t=46]) (simp_all add: rhe_div_def Let_def)
  show ?thesis
    by (simp add: aggregate_def weighted_totals_def accumulate_def weighted_avg_def
        f1 f2 f3 f4 f5 f6 f7 f8 f9 f10 f11 f12 f13 f14 f15 f16 f17 f18)
qed

lemma aggregate_two_files:
  "aggregate
     [\<lparr>Ciclomatic_Complexity = PyInt 2, Maintainability = PyFloat (dbl 75 0), Lines_of_Code = 10\<rparr>,
      \<lparr>Ciclomatic_Complexity = PyFloat (dbl 3 (- 1)), Maintainability = PyFloat (dbl 50 0), Lines_of_Code = 30\<rparr>]
   = Inr \<lparr>Ciclomatic_Complexity = PyFloat (dbl 13 (- 3)), Maintainability = PyFloat (dbl 225 (- 2)),
          Lines_of_Code = 40\<rparr>"
proof -
  have f1: "float_of_int 20 = Inr (dbl 20 0)"
    by (rule float_of_int_exact) simp
  have f2: "fadd (Finite 0) (dbl 20 0) = (dbl 20 0)"
    by (rule fadd_zero_left, rule is_double_dbl) simp_all
  have f3: "float_of_int 10 = Inr (dbl 10 0)"
    by (rule float_of_int_exact) simp
  have f4: "fmul (dbl 75 0) (dbl 10 0) = (dbl 750 0)"
    by (rule fmul_dbl_exact) simp_all
  have f5: "fadd (Finite 0) (dbl 750 0) = (dbl 750 0)"
    by (rule fadd_zero_left, rule is_double_dbl) simp_all
  have f6: "float_of_int 30 = Inr (dbl 30 0)"
    by (rule float_of_int_exact) simp
  have "fmul (dbl 3 (- 1)) (dbl 30 0) = (dbl 90 (- 1))"
    by (rule fmul_dbl_exact) simp_all
  also have "(dbl 90 (- 1)) = (dbl 45 0)"
    by (rule dbl_eqI[where k=1]) simp_all
  finally have f7: "fmul (dbl 3 (- 1)) (dbl 30 0) = (dbl 45 0)" .
  have f8: "fadd (dbl 20 0) (dbl 45 0) = (dbl 65 0)"
    by (rule fadd_dbl_exact[where ?e0.0="0" and c=65]) simp_all
  have f9: "fmul (dbl 50 0) (dbl 30 0) = (dbl 1500 0)"
    by (rule fmul_dbl_exact) simp_all
  have f10: "fadd (dbl 750 0) (dbl 1500 0) = (dbl 2250 0)"
    by (rule fadd_dbl_exact[where ?e0.0="0" and c=2250]) simp_all
  have f11: "float_of_int 40 = Inr (dbl 40 0)"
    by (rule float_of_int_exact) simp
  have "fdiv (dbl 65 0) (dbl 40 0) = Inr (dbl 7318349394477056 (- 52))"
    by (rule fdiv_dbl[where s=0 and t=52]) (simp_all add: rhe_div_def Let_def)
  also have "(dbl 7318349394477056 (- 52)) = (dbl 13 (- 3))"
    by (rule dbl_eqI[where k=49]) simp_all
  finally have f12: "fdiv (dbl 65 0) (dbl 40 0) = Inr (dbl 13 (- 3))" .
  have "fdiv (dbl 2250 0) (dbl 40 0) = Inr (dbl 7916483719987200 (- 47))"
    by (rule fdiv_dbl[where s=0 and t=47]) (simp_all add: rhe_div_def Let_def)
  also have "(dbl 7916483719987200 (- 47)) = (dbl 225 (- 2))"
    by (rule dbl_eqI[where k=45]) simp_all
  finally have f13: "fdiv (dbl 2250 0) (dbl 40 0) = Inr (dbl 225 (- 2))" .
  show ?thesis
    by (simp add: aggregate_def weighted_totals_def accumulate_def weighted_avg_def
        f1 f2 f3 f4 f5 f6 f7 f8 f9 f10 f11 f12 f13)
qed

section \<open>The claims about the aggregate\<close>

text \<open>
  C2. When the lines of code add up to more than 0, the aggregate is the sample whose
  \<^verbatim>\<open>Lines_of_Code\<close> is that total and whose complexity and maintainability are, each on
  its own, the weighted sum of the metric divided by the total, in Python's arithmetic
  and in the order of the list. It is computed (no exception) whenever the total and the
  products of the \<^verbatim>\<open>int\<close> metrics stay within \<open>2 ^ 53\<close>. Both aggregation sites run this
  \<open>aggregate\<close>.
\<close>

theorem aggregate_weighted_mean:
  assumes "0 < sum_list (map Lines_of_Code ms)"
  shows "aggregate ms =
      ebind (weighted_mean Ciclomatic_Complexity ms) (\<lambda>c.
      ebind (weighted_mean Maintainability ms) (\<lambda>m.
      Inr \<lparr>Ciclomatic_Complexity = c, Maintainability = m,
           Lines_of_Code = sum_list (map Lines_of_Code ms)\<rparr>)) \<and>
    ((\<forall>m\<in>set ms. fits (Ciclomatic_Complexity m) (Lines_of_Code m) \<and>
         fits (Maintainability m) (Lines_of_Code m)) \<and>
       int (sum_list (map Lines_of_Code ms)) \<le> 2 ^ 53
     \<longrightarrow> (\<exists>r. aggregate ms = Inr r))"
  using aggregate_formula[OF assms] aggregate_returns[of ms] by blast

theorem aggregate_weighted_mean_witness:
  "0 < sum_list (map Lines_of_Code
     [\<lparr>Ciclomatic_Complexity = PyInt 2, Maintainability = PyFloat (dbl 75 0), Lines_of_Code = 10\<rparr>,
      \<lparr>Ciclomatic_Complexity = PyFloat (dbl 3 (- 1)), Maintainability = PyFloat (dbl 50 0), Lines_of_Code = 30\<rparr>]) \<and>
   ebind (weighted_mean Ciclomatic_Complexity
     [\<lparr>Ciclomatic_Complexity = PyInt 2, Maintainability = PyFloat (dbl 75 0), Lines_of_Code = 10\<rparr>,
      \<lparr>Ciclomatic_Complexity = PyFloat (dbl 3 (- 1)), Maintainability = PyFloat (dbl 50 0), Lines_of_Code = 30\<rparr>])
     (\<lambda>c. ebind (weighted_mean Maintainability
     [\<lparr>Ciclomatic_Complexity = PyInt 2, Maintainability = PyFloat (dbl 75 0), Lines_of_Code = 10\<rparr>,
      \<lparr>Ciclomatic_Complexity = PyFloat (dbl 3 (- 1)), Maintainability = PyFloat (dbl 50 0), Lines_of_Code = 30\<rparr>])
     (\<lambda>m. Inr \<lparr>Ciclomatic_Complexity = c, Maintainability = m, Lines_of_Code = 40\<rparr>))
   = Inr \<lparr>Ciclomatic_Complexity = PyFloat (dbl 13 (- 3)), Maintainability = PyFloat (dbl 225 (- 2)),
          Lines_of_Code = 40\<rparr>"
  using aggregate_weighted_mean
    [of "[\<lparr>Ciclomatic_Complexity = PyInt 2, Maintainability = PyFloat (dbl 75 0), Lines_of_Code = 10\<rparr>,
      \<lparr>Ciclomatic_Complexity = PyFloat (dbl 3 (- 1)), Maintainability = PyFloat (dbl 50 0), Lines_of_Code = 30\<rparr>]"]
    aggregate_two_files
  by simp

text \<open>
  C8, as stated, fails: one file of 24 lines whose complexity is \<^verbatim>\<open>1.4\<close> has the
  aggregate complexity \<^verbatim>\<open>1.3999999999999997\<close>, since \<^verbatim>\<open>1.4 * 24\<close> is rounded before it is
  divided by 24.
\<close>

theorem same_complexity_counterexample:
  "aggregate
     [\<lparr>Ciclomatic_Complexity = PyFloat (dbl 3152519739159347 (- 51)),
       Maintainability = PyFloat (dbl 100 0), Lines_of_Code = 24\<rparr>]
   = Inr \<lparr>Ciclomatic_Complexity = PyFloat (dbl 6305039478318693 (- 52)),
          Maintainability = PyFloat (dbl 100 0), Lines_of_Code = 24\<rparr> \<and>
   dbl 6305039478318693 (- 52) \<noteq> dbl 3152519739159347 (- 51)"
proof -
  have "dbl 6305039478318693 (- 52) \<noteq> dbl 3152519739159347 (- 51)"
    by (simp add: dbl_eq_iff[where ?e0.0="- 52"])
  with aggregate_one_file show ?thesis by simp
qed

text \<open>
  C8, amended. When every sample has the same complexity \<open>c\<close>, a non-negative integer (as
  an \<^verbatim>\<open>int\<close>, which is what the mean of the blocks is when it is exact, or as a
  \<^verbatim>\<open>float\<close>), the total of the lines is positive and both the total and \<open>c\<close> times the
  total are at most \<open>2 ^ 53\<close>, then the aggregate complexity is exactly the float \<open>c\<close>,
  whatever the line counts are; the maintainability is its own weighted mean \<open>wm\<close>.
\<close>

theorem same_complexity_integer:
  assumes "\<forall>m\<in>set ms. int_valued (Ciclomatic_Complexity m) c" "0 \<le> c"
    "0 < sum_list (map Lines_of_Code ms)"
    "c * int (sum_list (map Lines_of_Code ms)) \<le> 2 ^ 53"
    "int (sum_list (map Lines_of_Code ms)) \<le> 2 ^ 53"
    "weighted_mean Maintainability ms = Inr wm"
  shows "aggregate ms =
    Inr \<lparr>Ciclomatic_Complexity = PyFloat (dbl c 0), Maintainability = wm,
         Lines_of_Code = sum_list (map Lines_of_Code ms)\<rparr>"
  using same_complexity_mean[OF assms(1-5)] assms(6)
  by (simp add: aggregate_formula[OF assms(3)])

theorem same_complexity_integer_witness:
  "aggregate
     [\<lparr>Ciclomatic_Complexity = PyInt 3, Maintainability = PyFloat (dbl 80 0), Lines_of_Code = 10\<rparr>,
      \<lparr>Ciclomatic_Complexity = PyFloat (dbl 3 0), Maintainability = PyFloat (dbl 80 0), Lines_of_Code = 30\<rparr>]
   = Inr \<lparr>Ciclomatic_Complexity = PyFloat (dbl 3 0), Maintainability = PyFloat (dbl 80 0),
          Lines_of_Code = 40\<rparr>"
proof -
  let ?ms = "[\<lparr>Ciclomatic_Complexity = PyInt 3, Maintainability = PyFloat (dbl 80 0), Lines_of_Code = 10\<rparr>,
      \<lparr>Ciclomatic_Complexity = PyFloat (dbl 3 0), Maintainability = PyFloat (dbl 80 0), Lines_of_Code = 30\<rparr>]"
  have "weighted_mean Maintainability ?ms = Inr (PyFloat (dbl 80 0))"
    by (rule same_complexity_mean) simp_all
  then show ?thesis
    using same_complexity_integer[of ?ms 3 "PyFloat (dbl 80 0)"] by simp
qed

text \<open>
  C7, as stated, fails: three files aggregated in two orders give the complexities
  \<^verbatim>\<open>1.7014925373134329\<close> and \<^verbatim>\<open>1.701492537313433\<close>, since the additions of floats round
  differently.
\<close>

theorem aggregate_reordered_counterexample:
  "mset [\<lparr>Ciclomatic_Complexity = PyFloat (dbl 6004799503160661 (- 52)), 
          Maintainability = PyFloat (dbl 75 0), Lines_of_Code = 10\<rparr>,
         \<lparr>Ciclomatic_Complexity = PyFloat (dbl 7505999378950827 (- 52)), 
          Maintainability = PyFloat (dbl 100 0), Lines_of_Code = 100\<rparr>,
         \<lparr>Ciclomatic_Complexity = PyInt 2, Maintainability = PyFloat (dbl 50 0), Lines_of_Code = 24\<rparr>]
   = mset [\<lparr>Ciclomatic_Complexity = PyFloat (dbl 6004799503160661 (- 52)), 
          Maintainability = PyFloat (dbl 75 0), Lines_of_Code = 10\<rparr>,
         \<lparr>Ciclomatic_Complexity = PyInt 2, Maintainability = PyFloat (dbl 50 0), Lines_of_Code = 24\<rparr>,
         \<lparr>Ciclomatic_Complexity = PyFloat (dbl 7505999378950827 (- 52)), 
          Maintainability = PyFloat (dbl 100 0), Lines_of_Code = 100\<rparr>] \<and>
   aggregate
     [\<lparr>Ciclomatic_Complexity = PyFloat (dbl 6004799503160661 (- 52)), 
          Maintainability = PyFloat (dbl 75 0), Lines_of_Code = 10\<rparr>,
      \<lparr>Ciclomatic_Complexity = PyInt 2, Maintainability = PyFloat (dbl 50 0), Lines_of_Code = 24\<rparr>,
      \<lparr>Ciclomatic_Complexity = PyFloat (dbl 7505999378950827 (- 52)), 
          Maintainability = PyFloat (dbl 100 0), Lines_of_Code = 100\<rparr>]
   = Inr \<lparr>Ciclomatic_Complexity = PyFloat (dbl 957855144627307 (- 49)),
          Maintainability = PyFloat (dbl 6275421588978245 (- 46)), Lines_of_Code = 134\<rparr> \<and>
   aggregate
     [\<lparr>Ciclomatic_Complexity = PyFloat (dbl 6004799503160661 (- 52)), 
          Maintainability = PyFloat (dbl 75 0), Lines_of_Code = 10\<rparr>,
      \<lparr>Ciclomatic_Complexity = PyFloat (dbl 7505999378950827 (- 52)), 
          Maintainability = PyFloat (dbl 100 0), Lines_of_Code = 100\<rparr>,
      \<lparr>Ciclomatic_Complexity = PyInt 2, Maintainability = PyFloat (dbl 50 0), Lines_of_Code = 24\<rparr>]
   = Inr \<lparr>Ciclomatic_Complexity = PyFloat (dbl 7662841157018457 (- 52)),
          Maintainability = PyFloat (dbl 6275421588978245 (- 46)), Lines_of_Code = 134\<rparr> \<and>
   dbl 957855144627307 (- 49) \<noteq> dbl 7662841157018457 (- 52)"
proof -
  have "dbl 957855144627307 (- 49) \<noteq> dbl 7662841157018457 (- 52)"
    by (simp add: dbl_eq_iff[where ?e0.0="- 52"])
  with aggregate_three_files aggregate_three_files_swapped show ?thesis
    by (simp add: add_mset_commute)
qed

text \<open>
  C7, amended. For a list of samples and any reordering of it: whether the aggregate is
  computed or raises, and its \<^verbatim>\<open>Lines_of_Code\<close>, are the same; and when every complexity and
  every maintainability is a non-negative integer (as an \<^verbatim>\<open>int\<close> or a \<^verbatim>\<open>float\<close>), with the
  total of the lines and the two weighted sums at most \<open>2 ^ 53\<close>, the two aggregates are
  equal. Otherwise the complexity and the maintainability may differ in their last bits.
\<close>

theorem aggregate_reordered:
  assumes "mset ms' = mset ms"
  shows "map_sum id Lines_of_Code (aggregate ms') = map_sum id Lines_of_Code (aggregate ms) \<and>
    ((\<forall>m\<in>set ms. int_valued (Ciclomatic_Complexity m) (vc m) \<and> 0 \<le> vc m \<and>
         int_valued (Maintainability m) (vm m) \<and> 0 \<le> vm m) \<and>
      (\<Sum>m\<leftarrow>ms. vc m * int (Lines_of_Code m)) \<le> 2 ^ 53 \<and>
      (\<Sum>m\<leftarrow>ms. vm m * int (Lines_of_Code m)) \<le> 2 ^ 53 \<and>
      int (sum_list (map Lines_of_Code ms)) \<le> 2 ^ 53
     \<longrightarrow> aggregate ms' = aggregate ms)"
proof (intro conjI impI)
  show "map_sum id Lines_of_Code (aggregate ms') = map_sum id Lines_of_Code (aggregate ms)"
    using assms by (rule aggregate_loc_mset)
next
  let ?L = "sum_list (map Lines_of_Code ms)"
  assume h: "(\<forall>m\<in>set ms. int_valued (Ciclomatic_Complexity m) (vc m) \<and> 0 \<le> vc m \<and>
         int_valued (Maintainability m) (vm m) \<and> 0 \<le> vm m) \<and>
      (\<Sum>m\<leftarrow>ms. vc m * int (Lines_of_Code m)) \<le> 2 ^ 53 \<and>
      (\<Sum>m\<leftarrow>ms. vm m * int (Lines_of_Code m)) \<le> 2 ^ 53 \<and>
      int (sum_list (map Lines_of_Code ms)) \<le> 2 ^ 53"
  have set: "set ms' = set ms" using assms by (rule mset_eq_setD)
  have L: "sum_list (map Lines_of_Code ms') = ?L" using assms by (rule sum_list_mset_cong)
  have sc: "(\<Sum>m\<leftarrow>ms'. vc m * int (Lines_of_Code m)) = (\<Sum>m\<leftarrow>ms. vc m * int (Lines_of_Code m))"
    using assms by (rule sum_list_mset_cong)
  have sm: "(\<Sum>m\<leftarrow>ms'. vm m * int (Lines_of_Code m)) = (\<Sum>m\<leftarrow>ms. vm m * int (Lines_of_Code m))"
    using assms by (rule sum_list_mset_cong)
  show "aggregate ms' = aggregate ms"
  proof (cases "?L = 0")
    case True
    then show ?thesis using L by (simp add: aggregate_total_zero)
  next
    case False
    then have pos: "0 < ?L" by linarith
    have "aggregate ms = ebind (ebind (fdiv (dbl (\<Sum>m\<leftarrow>ms. vc m * int (Lines_of_Code m)) 0)
             (dbl (int ?L) 0)) (\<lambda>q. Inr (PyFloat q))) (\<lambda>c.
        ebind (ebind (fdiv (dbl (\<Sum>m\<leftarrow>ms. vm m * int (Lines_of_Code m)) 0)
             (dbl (int ?L) 0)) (\<lambda>q. Inr (PyFloat q))) (\<lambda>m.
        Inr \<lparr>Ciclomatic_Complexity = c, Maintainability = m, Lines_of_Code = ?L\<rparr>))"
      using h pos by (intro aggregate_int_valued) auto
    moreover have "aggregate ms' = ebind (ebind (fdiv (dbl (\<Sum>m\<leftarrow>ms'. vc m * int (Lines_of_Code m)) 0)
             (dbl (int (sum_list (map Lines_of_Code ms'))) 0)) (\<lambda>q. Inr (PyFloat q))) (\<lambda>c.
        ebind (ebind (fdiv (dbl (\<Sum>m\<leftarrow>ms'. vm m * int (Lines_of_Code m)) 0)
             (dbl (int (sum_list (map Lines_of_Code ms'))) 0)) (\<lambda>q. Inr (PyFloat q))) (\<lambda>m.
        Inr \<lparr>Ciclomatic_Complexity = c, Maintainability = m,
             Lines_of_Code = sum_list (map Lines_of_Code ms')\<rparr>))"
      using h pos unfolding set[symmetric] L[symmetric] sc[symmetric] sm[symmetric]
      by (intro aggregate_int_valued) auto
    ultimately show ?thesis by (simp add: L sc sm)
  qed
qed

theorem aggregate_reordered_witness:
  "mset [\<lparr>Ciclomatic_Complexity = PyInt 5, Maintainability = PyFloat (dbl 60 0), Lines_of_Code = 30\<rparr>,
         \<lparr>Ciclomatic_Complexity = PyInt 3, Maintainability = PyFloat (dbl 80 0), Lines_of_Code = 10\<rparr>]
   = mset [\<lparr>Ciclomatic_Complexity = PyInt 3, Maintainability = PyFloat (dbl 80 0), Lines_of_Code = 10\<rparr>,
         \<lparr>Ciclomatic_Complexity = PyInt 5, Maintainability = PyFloat (dbl 60 0), Lines_of_Code = 30\<rparr>] \<and>
   aggregate
     [\<lparr>Ciclomatic_Complexity = PyInt 5, Maintainability = PyFloat (dbl 60 0), Lines_of_Code = 30\<rparr>,
      \<lparr>Ciclomatic_Complexity = PyInt 3, Maintainability = PyFloat (dbl 80 0), Lines_of_Code = 10\<rparr>]
   = aggregate
     [\<lparr>Ciclomatic_Complexity = PyInt 3, Maintainability = PyFloat (dbl 80 0), Lines_of_Code = 10\<rparr>,
      \<lparr>Ciclomatic_Complexity = PyInt 5, Maintainability = PyFloat (dbl 60 0), Lines_of_Code = 30\<rparr>]"
  using aggregate_reordered
    [of "[\<lparr>Ciclomatic_Complexity = PyInt 5, Maintainability = PyFloat (dbl 60 0), Lines_of_Code = 30\<rparr>,
         \<lparr>Ciclomatic_Complexity = PyInt 3, Maintainability = PyFloat (dbl 80 0), Lines_of_Code = 10\<rparr>]"
        "[\<lparr>Ciclomatic_Complexity = PyInt 3, Maintainability = PyFloat (dbl 80 0), Lines_of_Code = 10\<rparr>,
         \<lparr>Ciclomatic_Complexity = PyInt 5, Maintainability = PyFloat (dbl 60 0), Lines_of_Code = 30\<rparr>]"
        "\<lambda>m. if Lines_of_Code m = 10 then 3 else 5"
        "\<lambda>m. if Lines_of_Code m = 10 then 80 else 60"]
  by (simp add: add_mset_commute)

section \<open>Facts about the extraction\<close>

lemma calculate_metrics_failure:
  assumes "extraction a file_content = Inl err"
  shows "calculate_metrics a pr file_content file_name =
    ebind (pr (''Error in '' @ file_name @ '': '' @ str_of_exn err))
      (\<lambda>_. Inr (zero_sample, [''Error in '' @ file_name @ '': '' @ str_of_exn err]))"
  using assms
  by (cases "pr (''Error in '' @ file_name @ '': '' @ str_of_exn err)")
    (simp_all add: calculate_metrics_def try_except_def zero_sample_def diagnostic_def ebind_def)

lemma calculate_metrics_success:
  assumes "extraction a file_content = Inr (c, m, n)"
  shows "calculate_metrics a pr file_content file_name =
    Inr (\<lparr>Ciclomatic_Complexity = c, Maintainability = m, Lines_of_Code = n\<rparr>, [])"
  using assms by (simp add: calculate_metrics_def try_except_def)

lemma calculate_metrics_error:
  assumes "calculate_metrics a pr file_content file_name = Inl e"
  shows "\<exists>err. extraction a file_content = Inl err \<and>
    pr (''Error in '' @ file_name @ '': '' @ str_of_exn err) = Inl e"
proof (cases "extraction a file_content")
  case (Inl err)
  with assms have "pr (''Error in '' @ file_name @ '': '' @ str_of_exn err) = Inl e"
    by (cases "pr (''Error in '' @ file_name @ '': '' @ str_of_exn err)")
      (simp_all add: calculate_metrics_failure ebind_def)
  with Inl show ?thesis by blast
next
  case (Inr r)
  with assms show ?thesis by (cases r) (simp add: calculate_metrics_success)
qed

lemma extraction_failure:
  assumes "isl (cc_visit a file_content) \<or> isl (mi_visit a file_content True) \<or>
    isl (analyze a file_content)"
  shows "isl (extraction a file_content)"
proof (cases "cc_visit a file_content")
  case (Inl e)
  then show ?thesis by (simp add: extraction_def)
next
  case cc: (Inr blocks)
  show ?thesis
  proof (cases "if length blocks \<noteq> 0 then mean blocks else Inr (PyInt 0)")
    case (Inl e)
    with cc show ?thesis by (simp add: extraction_def)
  next
    case mn: (Inr c)
    show ?thesis
    proof (cases "mi_visit a file_content True")
      case (Inl e)
      with cc mn show ?thesis by (simp add: extraction_def)
    next
      case mi: (Inr m)
      with assms cc obtain e where "analyze a file_content = Inl e"
        by (cases "analyze a file_content") auto
      with cc mn mi show ?thesis by (simp add: extraction_def)
    qed
  qed
qed

lemma failing_radon_fails: "extraction failing_radon ''def f(:'' = Inl (Exception ''invalid syntax'')"
  by (simp add: extraction_def failing_radon_def mean_def)

text \<open>
  C3, as stated, fails: when radon fails on a file whose label the standard output cannot
  encode, the \<^verbatim>\<open>print\<close> of the handler raises, and this exception leaves
  \<^verbatim>\<open>_calculate_metrics\<close>.
\<close>

theorem calculate_metrics_raises:
  "extraction failing_radon ''def f(:'' = Inl (Exception ''invalid syntax'') \<and>
   ascii_print (''Error in caf'' @ [CHR 0xE9] @ '': invalid syntax'') =
     Inl (Exception ''codec cannot encode character'') \<and>
   calculate_metrics failing_radon ascii_print ''def f(:'' (''caf'' @ [CHR 0xE9]) =
     Inl (Exception ''codec cannot encode character'')"
proof -
  have p: "ascii_print (''Error in caf'' @ [CHR 0xE9] @ '': invalid syntax'') =
     Inl (Exception ''codec cannot encode character'')"
    by (simp add: ascii_print_def)
  have "calculate_metrics failing_radon ascii_print ''def f(:'' (''caf'' @ [CHR 0xE9]) =
     Inl (Exception ''codec cannot encode character'')"
    using p by (simp add: calculate_metrics_failure[OF failing_radon_fails] ebind_def)
  with failing_radon_fails p show ?thesis by simp
qed

text \<open>
  C3, amended. Every exception that radon or the mean raises in the body of the \<^verbatim>\<open>try\<close> of
  \<^verbatim>\<open>_calculate_metrics\<close> is caught, which happens as soon as one of \<^verbatim>\<open>cc_visit\<close>,
  \<^verbatim>\<open>mi_visit\<close> and \<^verbatim>\<open>analyze\<close> raises: the handler prints the line
  \<^verbatim>\<open>Error in <label>: <err>\<close>, and when this \<^verbatim>\<open>print\<close> returns, the function returns the
  all-zero sample. When the body raises nothing, the function returns its three values and
  prints nothing. The only exception that can leave the function is one that the \<^verbatim>\<open>print\<close>
  of the diagnostic raises.
\<close>

theorem calculate_metrics_degrades:
  "(\<forall>c m n. extraction a file_content = Inr (c, m, n) \<longrightarrow>
      calculate_metrics a pr file_content file_name =
        Inr (\<lparr>Ciclomatic_Complexity = c, Maintainability = m, Lines_of_Code = n\<rparr>, [])) \<and>
   (\<forall>err. extraction a file_content = Inl err \<and>
        \<not> isl (pr (''Error in '' @ file_name @ '': '' @ str_of_exn err)) \<longrightarrow>
      calculate_metrics a pr file_content file_name =
        Inr (zero_sample, [''Error in '' @ file_name @ '': '' @ str_of_exn err])) \<and>
   (\<forall>e. calculate_metrics a pr file_content file_name = Inl e \<longrightarrow>
      (\<exists>err. extraction a file_content = Inl err \<and>
         pr (''Error in '' @ file_name @ '': '' @ str_of_exn err) = Inl e)) \<and>
   (isl (cc_visit a file_content) \<or> isl (mi_visit a file_content True) \<or>
      isl (analyze a file_content) \<longrightarrow> isl (extraction a file_content))"
proof (intro conjI allI impI)
  fix c m n
  assume "extraction a file_content = Inr (c, m, n)"
  then show "calculate_metrics a pr file_content file_name =
        Inr (\<lparr>Ciclomatic_Complexity = c, Maintainability = m, Lines_of_Code = n\<rparr>, [])"
    by (rule calculate_metrics_success)
next
  fix err
  assume "extraction a file_content = Inl err \<and>
        \<not> isl (pr (''Error in '' @ file_name @ '': '' @ str_of_exn err))"
  then show "calculate_metrics a pr file_content file_name =
        Inr (zero_sample, [''Error in '' @ file_name @ '': '' @ str_of_exn err])"
    by (cases "pr (''Error in '' @ file_name @ '': '' @ str_of_exn err)")
      (simp_all add: calculate_metrics_failure ebind_def)
next
  fix e
  assume "calculate_metrics a pr file_content file_name = Inl e"
  then show "\<exists>err. extraction a file_content = Inl err \<and>
         pr (''Error in '' @ file_name @ '': '' @ str_of_exn err) = Inl e"
    by (rule calculate_metrics_error)
next
  assume "isl (cc_visit a file_content) \<or> isl (mi_visit a file_content True) \<or>
      isl (analyze a file_content)"
  then show "isl (extraction a file_content)" by (rule extraction_failure)
qed

theorem calculate_metrics_degrades_witness:
  "isl (mi_visit failing_radon ''def f(:'' True) \<and>
   extraction failing_radon ''def f(:'' = Inl (Exception ''invalid syntax'') \<and>
   \<not> isl (ascii_print ''Error in broken: invalid syntax'') \<and>
   calculate_metrics failing_radon ascii_print ''def f(:'' ''broken'' =
     Inr (zero_sample, [''Error in broken: invalid syntax''])"
proof -
  have p: "\<not> isl (ascii_print ''Error in broken: invalid syntax'')"
    by (simp add: ascii_print_def)
  have m: "isl (mi_visit failing_radon ''def f(:'' True)"
    by (simp add: failing_radon_def)
  from calculate_metrics_degrades[of failing_radon "''def f(:''" ascii_print "''broken''"]
    failing_radon_fails p m
  show ?thesis by simp
qed

section \<open>Facts about the walk and the tables\<close>

subsection \<open>Dictionaries of lists, and the walk\<close>

lemma dd_get_Nil [simp]: "dd_get [] k = []"
  by (simp add: dd_get_def)

lemma dd_get_append: "dd_get (dd_append k v d) k' = (if k' = k then dd_get d k @ [v] else dd_get d k')"
  by (induction d) (auto simp: dd_get_def)

lemma keys_dd_append:
  "map fst (dd_append k v d) = (if k \<in> fst ` set d then map fst d else map fst d @ [k])"
proof (induction d)
  case Nil
  show ?case by simp
next
  case (Cons p d)
  then show ?case by (cases p) (force simp: image_iff)
qed

lemma distinct_dd_append: "distinct (map fst d) \<Longrightarrow> distinct (map fst (dd_append k v d))"
  by (simp add: keys_dd_append)

lemma values_dd_append:
  "\<forall>kv\<in>set d. snd kv \<noteq> [] \<Longrightarrow> \<forall>kv\<in>set (dd_append k v d). snd kv \<noteq> []"
proof (induction d)
  case Nil
  show ?case by simp
next
  case (Cons p d)
  then show ?case by (cases p) (auto split: if_splits)
qed

lemma add_pairs_Nil [simp]: "add_pairs [] d = d"
  by (simp add: add_pairs_def)

lemma add_pairs_Cons [simp]: "add_pairs (kv # kvs) d = add_pairs kvs (dd_append (fst kv) (snd kv) d)"
  by (simp add: add_pairs_def)

lemma add_pairs_append: "add_pairs (xs @ ys) d = add_pairs ys (add_pairs xs d)"
  by (simp add: add_pairs_def)

lemma dd_get_add_pairs:
  "dd_get (add_pairs kvs d) k = dd_get d k @ map snd (filter (\<lambda>kv. fst kv = k) kvs)"
  by (induction kvs arbitrary: d) (auto simp: dd_get_append)

lemma distinct_add_pairs: "distinct (map fst d) \<Longrightarrow> distinct (map fst (add_pairs kvs d))"
  by (induction kvs arbitrary: d) (auto simp: distinct_dd_append)

lemma keys_add_pairs: "fst ` set (add_pairs kvs d) = fst ` set d \<union> fst ` set kvs"
proof (induction kvs arbitrary: d)
  case Nil
  show ?case by simp
next
  case (Cons kv kvs)
  have "fst ` set (dd_append (fst kv) (snd kv) d) = insert (fst kv) (fst ` set d)"
    using keys_dd_append[of "fst kv" "snd kv" d]
    by (metis (no_types, lifting) Un_insert_right insert_absorb list.set(1,2) list.set_map
        set_append sup_bot.right_neutral)
  with Cons.IH[of "dd_append (fst kv) (snd kv) d"] show ?case by auto
qed

lemma values_add_pairs:
  "\<forall>kv\<in>set d. snd kv \<noteq> [] \<Longrightarrow> \<forall>kv\<in>set (add_pairs kvs d). snd kv \<noteq> []"
proof (induction kvs arbitrary: d)
  case Nil
  then show ?case by simp
next
  case (Cons kv kvs)
  have "\<forall>p\<in>set (dd_append (fst kv) (snd kv) d). snd p \<noteq> []"
    using Cons.prems by (rule values_dd_append)
  then have "\<forall>p\<in>set (add_pairs kvs (dd_append (fst kv) (snd kv) d)). snd p \<noteq> []"
    by (rule Cons.IH)
  then show ?case by simp
qed

lemma dd_append_fresh: "k \<notin> fst ` set d \<Longrightarrow> dd_append k v d = d @ [(k, [v])]"
  by (induction d) auto

lemma add_pairs_distinct:
  assumes "distinct (map fst kvs)" "fst ` set kvs \<inter> fst ` set d = {}"
  shows "add_pairs kvs d = d @ map (\<lambda>kv. (fst kv, [snd kv])) kvs"
  using assms
proof (induction kvs arbitrary: d)
  case Nil
  show ?case by simp
next
  case (Cons kv kvs)
  from Cons.prems have fresh: "fst kv \<notin> fst ` set d" by auto
  have "fst ` set kvs \<inter> fst ` set (d @ [(fst kv, [snd kv])]) = {}"
    using Cons.prems by auto
  with Cons.IH[of "d @ [(fst kv, [snd kv])]"] Cons.prems fresh show ?case
    by (simp add: dd_append_fresh)
qed

lemma calculate_metrics_measured:
  assumes "calculate_metrics a pr file_content file_name = Inr (m, out)"
  shows "m = measured a file_content"
proof (cases "extraction a file_content")
  case (Inl err)
  with assms show ?thesis
    by (cases "pr (''Error in '' @ file_name @ '': '' @ str_of_exn err)")
      (simp_all add: calculate_metrics_failure measured_def ebind_def)
next
  case (Inr r)
  with assms show ?thesis by (cases r) (simp add: calculate_metrics_success measured_def)
qed

lemma calculate_metrics_returns:
  "(\<exists>res. calculate_metrics a pr file_content file_name = Inr res) \<longleftrightarrow>
   (case extraction a file_content of
      Inl err \<Rightarrow> \<not> isl (pr (diagnostic file_name err))
    | Inr v \<Rightarrow> True)"
proof (cases "extraction a file_content")
  case (Inl err)
  then show ?thesis
    by (cases "pr (''Error in '' @ file_name @ '': '' @ str_of_exn err)")
      (simp_all add: calculate_metrics_failure diagnostic_def ebind_def)
next
  case (Inr r)
  then show ?thesis by (cases r) (simp add: calculate_metrics_success)
qed

lemma visit_item_returns:
  assumes "item_succeeds E r c item"
  shows "\<exists>out'. visit_item E r c item (h, out) = Inr (add_pairs (contribution E r c item) h, out @ out')"
proof (cases "qualifies item")
  case False
  then show ?thesis by (simp add: visit_item_def contribution_def)
next
  case True
  with assms obtain d where d: "fromtimestamp E (committed_date c) = Inr d"
    by (cases "fromtimestamp E (committed_date c)") (auto simp: item_succeeds_def)
  from True assms obtain file_content where c: "content_at r c item = Inr file_content"
    by (cases "content_at r c item") (auto simp: item_succeeds_def)
  show ?thesis
  proof (cases "file_content = [] \<or> splitext_root (item_name item) = ''__init__''")
    case T: True
    with True c d show ?thesis
      by (auto simp: visit_item_def contribution_def content_at_def file_stem_def Let_def)
  next
    case F: False
    with True assms c have "case extraction (radon E) file_content of
        Inl err \<Rightarrow> \<not> isl (print E (diagnostic (splitext_root (item_name item)) err))
      | Inr v \<Rightarrow> True"
      by (auto simp: item_succeeds_def file_stem_def split: sum.splits)
    then obtain res where
      "calculate_metrics (radon E) (print E) file_content (splitext_root (item_name item)) = Inr res"
      unfolding calculate_metrics_returns[symmetric] by blast
    moreover obtain m out' where "res = (m, out')" by (cases res)
    ultimately have cm:
      "calculate_metrics (radon E) (print E) file_content (splitext_root (item_name item))
        = Inr (measured (radon E) file_content, out')"
      using calculate_metrics_measured by fastforce
    with True c d F show ?thesis
      by (auto simp: visit_item_def contribution_def content_at_def file_stem_def Let_def)
  qed
qed

lemma visit_item_succeeded:
  assumes "visit_item E r c item st = Inr st'"
  shows "item_succeeds E r c item"
proof (cases "qualifies item")
  case False
  then show ?thesis by (simp add: item_succeeds_def)
next
  case True
  with assms obtain d file_content where d: "fromtimestamp E (committed_date c) = Inr d"
    and c: "content_at r c item = Inr file_content"
    and rest: "(if length file_content = 0 \<or> splitext_root (item_name item) = ''__init__'' then Inr st
       else ebind (calculate_metrics (radon E) (print E) file_content (splitext_root (item_name item)))
              (\<lambda>(m, out). Inr (dd_append (splitext_root (item_name item)) (set_Date m (strftime d)) (fst st),
                  snd st @ out))) = Inr st'"
    by (auto simp: visit_item_def content_at_def Let_def ebind_eq_Inr)
  show ?thesis
  proof (cases "file_content = [] \<or> splitext_root (item_name item) = ''__init__''")
    case T: True
    with True d c show ?thesis by (auto simp: item_succeeds_def file_stem_def)
  next
    case F: False
    with rest obtain res where
      "calculate_metrics (radon E) (print E) file_content (splitext_root (item_name item)) = Inr res"
      by (auto simp: ebind_eq_Inr)
    then have "case extraction (radon E) file_content of
        Inl err \<Rightarrow> \<not> isl (print E (diagnostic (splitext_root (item_name item)) err))
      | Inr v \<Rightarrow> True"
      unfolding calculate_metrics_returns[symmetric] by blast
    with True d c show ?thesis by (auto simp: item_succeeds_def file_stem_def split: sum.splits)
  qed
qed

lemma visit_items_returns:
  assumes "list_all (item_succeeds E r c) items"
  shows "\<exists>out'. efold (visit_item E r c) items (h, out)
    = Inr (add_pairs (concat (map (contribution E r c) items)) h, out @ out')"
  using assms
proof (induction items arbitrary: h out)
  case Nil
  show ?case by simp
next
  case (Cons item items)
  from Cons.prems have 1: "item_succeeds E r c item"
    and 2: "list_all (item_succeeds E r c) items" by simp_all
  from visit_item_returns[OF 1] obtain o1 where
    s1: "visit_item E r c item (h, out) = Inr (add_pairs (contribution E r c item) h, out @ o1)"
    by blast
  from Cons.IH[OF 2] obtain o2 where
    "efold (visit_item E r c) items (add_pairs (contribution E r c item) h, out @ o1)
      = Inr (add_pairs (concat (map (contribution E r c) items))
          (add_pairs (contribution E r c item) h), (out @ o1) @ o2)"
    by blast
  with s1 show ?case by (simp add: add_pairs_append)
qed

lemma visit_items_succeeded:
  assumes "efold (visit_item E r c) items st = Inr st'"
  shows "list_all (item_succeeds E r c) items"
  using assms
proof (induction items arbitrary: st)
  case Nil
  show ?case by simp
next
  case (Cons item items)
  from Cons.prems obtain st1 where 1: "visit_item E r c item st = Inr st1"
    and 2: "efold (visit_item E r c) items st1 = Inr st'" by (auto simp: ebind_eq_Inr)
  from visit_item_succeeded[OF 1] Cons.IH[OF 2] show ?case by simp
qed

lemma visit_commits_returns:
  assumes "list_all (\<lambda>c. list_all (item_succeeds E r c) (tree_traverse c)) cs"
  shows "\<exists>out'. efold (\<lambda>c. efold (visit_item E r c) (tree_traverse c)) cs (h, out)
    = Inr (add_pairs (concat (map (\<lambda>c. concat (map (contribution E r c) (tree_traverse c))) cs)) h,
           out @ out')"
  using assms
proof (induction cs arbitrary: h out)
  case Nil
  show ?case by simp
next
  case (Cons c cs)
  let ?k = "concat (map (contribution E r c) (tree_traverse c))"
  from Cons.prems have 1: "list_all (item_succeeds E r c) (tree_traverse c)"
    and 2: "list_all (\<lambda>c. list_all (item_succeeds E r c) (tree_traverse c)) cs" by simp_all
  from visit_items_returns[OF 1] obtain o1 where
    s1: "efold (visit_item E r c) (tree_traverse c) (h, out) = Inr (add_pairs ?k h, out @ o1)"
    by blast
  from Cons.IH[OF 2] obtain o2 where
    "efold (\<lambda>c. efold (visit_item E r c) (tree_traverse c)) cs (add_pairs ?k h, out @ o1)
      = Inr (add_pairs (concat (map (\<lambda>c. concat (map (contribution E r c) (tree_traverse c))) cs))
          (add_pairs ?k h), (out @ o1) @ o2)"
    by blast
  with s1 show ?case by (simp add: add_pairs_append)
qed

lemma visit_commits_succeeded:
  assumes "efold (\<lambda>c. efold (visit_item E r c) (tree_traverse c)) cs st = Inr st'"
  shows "list_all (\<lambda>c. list_all (item_succeeds E r c) (tree_traverse c)) cs"
  using assms
proof (induction cs arbitrary: st)
  case Nil
  show ?case by simp
next
  case (Cons c cs)
  from Cons.prems obtain st1 where 1: "efold (visit_item E r c) (tree_traverse c) st = Inr st1"
    and 2: "efold (\<lambda>c. efold (visit_item E r c) (tree_traverse c)) cs st1 = Inr st'"
    by (auto simp: ebind_eq_Inr)
  from visit_items_succeeded[OF 1] Cons.IH[OF 2] show ?case by simp
qed

lemma walk_contributions:
  assumes "git_Repo E dir = Inr r" "walk_succeeds E r max_count"
  shows "\<exists>out. generate_history_metrics_by_file E dir max_count
    = Inr (group_pairs (contributions E r max_count), out)"
proof -
  from assms(2) have log: "commit_log r \<noteq> []"
    and all: "list_all (\<lambda>c. list_all (item_succeeds E r c) (tree_traverse c)) (rev_list r max_count)"
    by (simp_all add: walk_succeeds_def)
  from visit_commits_returns[OF all, of "[]" "[]"] assms(1) log show ?thesis
    by (simp add: generate_history_metrics_by_file_def iter_commits_def group_pairs_def
        contributions_def)
qed

lemma walk_succeeded:
  assumes "git_Repo E dir = Inr r" "generate_history_metrics_by_file E dir max_count = Inr res"
  shows "walk_succeeds E r max_count"
proof -
  from assms have log: "commit_log r \<noteq> []"
    by (auto simp: generate_history_metrics_by_file_def iter_commits_def split: if_splits)
  with assms have
    "efold (\<lambda>c. efold (visit_item E r c) (tree_traverse c)) (rev_list r max_count) ([], []) = Inr res"
    by (simp add: generate_history_metrics_by_file_def iter_commits_def)
  from visit_commits_succeeded[OF this] log show ?thesis by (simp add: walk_succeeds_def)
qed

lemma walk_result:
  assumes "git_Repo E dir = Inr r" "generate_history_metrics_by_file E dir max_count = Inr (h, out)"
  shows "h = group_pairs (contributions E r max_count)"
  using walk_contributions[OF assms(1) walk_succeeded[OF assms]] assms(2) by auto

subsection \<open>What a call changes\<close>

lemma total_dd_append:
  "length (concat (map snd (dd_append k v d))) = Suc (length (concat (map snd d)))"
proof (induction d)
  case Nil
  show ?case by simp
next
  case (Cons p d)
  then show ?case by (cases p) simp
qed

lemma total_add_pairs:
  "length (concat (map snd (add_pairs kvs d))) = length (concat (map snd d)) + length kvs"
  by (induction kvs arbitrary: d) (simp_all add: total_dd_append)

lemma contribution_excluded:
  assumes "file_stem item = ''__init__'' \<or> content_at r c item = Inr []"
  shows "contribution E r c item = []"
  using assms by (auto simp: contribution_def split: sum.splits)

lemma contribution_included:
  assumes "qualifies item" "fromtimestamp E (committed_date c) = Inr d"
    "content_at r c item = Inr file_content" "file_content \<noteq> []"
    "file_stem item \<noteq> ''__init__''"
  shows "contribution E r c item =
    [(file_stem item, set_Date (measured (radon E) file_content) (strftime d))]"
  using assms by (simp add: contribution_def)

lemma contribution_stem:
  assumes "kv \<in> set (contribution E r c item)"
  shows "fst kv \<noteq> ''__init__''"
  using assms unfolding contribution_def
  by (cases "qualifies item"; cases "fromtimestamp E (committed_date c)";
      cases "content_at r c item") (auto split: if_splits)

lemma contributions_stem:
  assumes "kv \<in> set (contributions E r max_count)"
  shows "fst kv \<noteq> ''__init__''"
proof -
  from assms obtain c item where "kv \<in> set (contribution E r c item)"
    unfolding contributions_def by auto
  then show ?thesis by (rule contribution_stem)
qed

lemma file_rows:
  assumes "\<forall>kv\<in>set h. snd kv \<noteq> []"
  shows "efold file_row h s =
    Inr (s\<lparr>metrics_by_file := metrics_by_file s @ map (\<lambda>kv. set_File (hd (snd kv)) (fst kv)) h\<rparr>)"
  using assms
proof (induction h arbitrary: s)
  case Nil
  show ?case by simp
next
  case (Cons kv h)
  obtain k vs where kv: "kv = (k, vs)" by (cases kv)
  with Cons.prems obtain m ms where vs: "vs = m # ms" by (cases vs) auto
  have "file_row kv s = Inr (s\<lparr>metrics_by_file := metrics_by_file s @ [set_File m k]\<rparr>)"
    by (simp add: file_row_def first_with_File_def kv vs)
  with Cons show ?case by (simp add: kv vs)
qed

lemma group_pairs_values: "\<forall>kv\<in>set (group_pairs kvs). snd kv \<noteq> []"
  unfolding group_pairs_def by (rule values_add_pairs) simp

lemma project_metrics_by_file_rows:
  assumes "git_Repo E (project_directory s) = Inr r" "generate_project_metrics_by_file E s = Inr s1"
  shows "walk_succeeds E r (Some 1) \<and>
    (\<exists>out. s1 = s\<lparr>printed := printed s @ out,
           metrics_by_file := metrics_by_file s @
             map (\<lambda>kv. set_File (hd (snd kv)) (fst kv))
               (group_pairs (contributions E r (Some 1)))\<rparr>)"
proof -
  from assms(2) obtain h out where
    w: "generate_history_metrics_by_file E (project_directory s) (Some 1) = Inr (h, out)"
    and f: "efold file_row h (s\<lparr>printed := printed s @ out\<rparr>) = Inr s1"
    by (auto simp: generate_project_metrics_by_file_def ebind_eq_Inr)
  from walk_result[OF assms(1) w] have h: "h = group_pairs (contributions E r (Some 1))" .
  from f have "s1 = s\<lparr>printed := printed s @ out,
           metrics_by_file := metrics_by_file s @
             map (\<lambda>kv. set_File (hd (snd kv)) (fst kv))
               (group_pairs (contributions E r (Some 1)))\<rparr>"
    unfolding h by (simp add: file_rows[OF group_pairs_values])
  with walk_succeeded[OF assms(1) w] show ?thesis by blast
qed

lemma group_pairs_distinct:
  assumes "distinct (map fst kvs)"
  shows "group_pairs kvs = map (\<lambda>kv. (fst kv, [snd kv])) kvs"
  using add_pairs_distinct[OF assms, of "[]"] by (simp add: group_pairs_def)

lemma efold_date_row:
  assumes "efold (date_row mbd) ds s = Inr s'"
  shows "\<exists>rows. s' = s\<lparr>history_metrics := history_metrics s @ rows\<rparr> \<and>
    list_all2 (\<lambda>d row. Date row = d \<and> aggregate (dd_get mbd d) = Inr (drop_Date row)) ds rows"
  using assms
proof (induction ds arbitrary: s)
  case Nil
  then show ?case by (intro exI[of _ "[]"]) simp
next
  case (Cons d ds)
  from Cons.prems obtain s1 where s1: "date_row mbd d s = Inr s1"
    and rest1: "efold (date_row mbd) ds s1 = Inr s'"
    by (auto simp: ebind_eq_Inr)
  from s1 obtain agg where agg: "aggregate (dd_get mbd d) = Inr agg"
    and "s1 = s\<lparr>history_metrics := history_metrics s @ [set_Date agg d]\<rparr>"
    by (auto simp: date_row_def ebind_eq_Inr)
  with rest1 have rest: "efold (date_row mbd) ds (s\<lparr>history_metrics := history_metrics s @ [set_Date agg d]\<rparr>) = Inr s'"
    by simp
  from Cons.IH[OF rest] obtain rows where
    s': "s' = s\<lparr>history_metrics := (history_metrics s @ [set_Date agg d]) @ rows\<rparr>"
    and all: "list_all2 (\<lambda>d row. Date row = d \<and> aggregate (dd_get mbd d) = Inr (drop_Date row)) ds rows"
    by auto
  have "Date (set_Date agg d) = d" "drop_Date (set_Date agg d) = agg"
    by (simp_all add: set_Date_def drop_Date_def)
  with agg all have "list_all2 (\<lambda>d row. Date row = d \<and> aggregate (dd_get mbd d) = Inr (drop_Date row))
    (d # ds) (set_Date agg d # rows)" by simp
  with s' show ?case by (intro exI[of _ "set_Date agg d # rows"]) simp
qed

lemma generate_history_metrics_effect:
  assumes "generate_history_metrics s = Inr s'"
  shows "\<exists>rows. s' = s\<lparr>history_metrics := history_metrics s @ rows\<rparr>"
  using assms efold_date_row unfolding generate_history_metrics_def Let_def by blast

lemma generate_project_metrics_effect:
  assumes "generate_project_metrics s = Inr s'"
  shows "\<exists>agg. s' = s\<lparr>metrics := metrics s @ [agg]\<rparr>"
  using assms by (auto simp: generate_project_metrics_def ebind_eq_Inr)

lemma efold_file_row_effect:
  assumes "efold file_row h s = Inr s'"
  shows "\<exists>rows. s' = s\<lparr>metrics_by_file := metrics_by_file s @ rows\<rparr>"
  using assms
proof (induction h arbitrary: s)
  case Nil
  then show ?case by (intro exI[of _ "[]"]) simp
next
  case (Cons kv h)
  from Cons.prems obtain s1 where s1: "file_row kv s = Inr s1"
    and rest1: "efold file_row h s1 = Inr s'"
    by (auto simp: ebind_eq_Inr)
  from s1 obtain m where "s1 = s\<lparr>metrics_by_file := metrics_by_file s @ [m]\<rparr>"
    by (auto simp: file_row_def ebind_eq_Inr)
  with rest1 have
    "efold file_row h (s\<lparr>metrics_by_file := metrics_by_file s @ [m]\<rparr>) = Inr s'"
    by simp
  from Cons.IH[OF this] obtain rows where
    "s' = s\<lparr>metrics_by_file := (metrics_by_file s @ [m]) @ rows\<rparr>" by auto
  then show ?case by (intro exI[of _ "m # rows"]) simp
qed

lemma generate_project_metrics_by_file_effect:
  assumes "generate_project_metrics_by_file E s = Inr s'"
  shows "\<exists>rows out. s' = s\<lparr>printed := printed s @ out, metrics_by_file := metrics_by_file s @ rows\<rparr>"
proof -
  from assms obtain h out where
    "efold file_row h (s\<lparr>printed := printed s @ out\<rparr>) = Inr s'"
    by (auto simp: generate_project_metrics_by_file_def ebind_eq_Inr)
  from efold_file_row_effect[OF this] show ?thesis by auto
qed

lemma inspect_project_effect:
  assumes "inspect_project E inspect_history max_history_count s = Inr s'"
  shows "\<exists>agg rows hist. metrics s' = metrics s @ [agg] \<and>
    metrics_by_file s' = metrics_by_file s @ rows \<and>
    history_metrics s' = history_metrics s @ hist \<and>
    project_directory s' = project_directory s"
proof -
  from assms obtain s1 s2 where 1: "generate_project_metrics_by_file E s = Inr s1"
    and 2: "generate_project_metrics s1 = Inr s2"
    and 3: "(if inspect_history then
         let max_count = (if max_history_count > 0 then Some max_history_count else None)
         in ebind (generate_history_metrics_by_file E (project_directory s2) max_count)
              (\<lambda>(h, out).
                 generate_history_metrics
                   (s2\<lparr>history_metrics_by_file := h, printed := printed s2 @ out\<rparr>))
       else Inr s2) = Inr s'"
    by (auto simp: inspect_project_def ebind_eq_Inr)
  from generate_project_metrics_by_file_effect[OF 1] obtain rows out where
    s1: "s1 = s\<lparr>printed := printed s @ out, metrics_by_file := metrics_by_file s @ rows\<rparr>" by auto
  from generate_project_metrics_effect[OF 2] obtain agg where
    s2: "s2 = s1\<lparr>metrics := metrics s1 @ [agg]\<rparr>" by auto
  show ?thesis
  proof (cases inspect_history)
    case False
    with 3 have "s' = s2" by simp
    with s1 s2 show ?thesis by simp
  next
    case True
    with 3 obtain h out' where
      "generate_history_metrics (s2\<lparr>history_metrics_by_file := h, printed := printed s2 @ out'\<rparr>) = Inr s'"
      by (auto simp: Let_def ebind_eq_Inr)
    from generate_history_metrics_effect[OF this] obtain hist where
      "s' = (s2\<lparr>history_metrics_by_file := h, printed := printed s2 @ out'\<rparr>)
        \<lparr>history_metrics := history_metrics s2 @ hist\<rparr>" by auto
    with s1 s2 show ?thesis by simp
  qed
qed

lemma take_prefix:
  assumes "take (length (xs @ ys)) zs = xs @ ys"
  shows "take (length xs) zs = xs"
proof -
  have "take (length xs) zs = take (length xs) (take (length (xs @ ys)) zs)" by simp
  also have "\<dots> = xs" unfolding assms by simp
  finally show ?thesis .
qed

lemma efold_file_row_rows:
  assumes "efold file_row h s = Inr s'"
  shows "s' = s\<lparr>metrics_by_file := metrics_by_file s @ first_rows h\<rparr>"
  using assms
proof (induction h arbitrary: s)
  case Nil
  then show ?case by (simp add: first_rows_def)
next
  case (Cons kv h)
  from Cons.prems obtain s1 where s1: "file_row kv s = Inr s1"
    and rest1: "efold file_row h s1 = Inr s'"
    by (auto simp: ebind_eq_Inr)
  obtain k vs where kv: "kv = (k, vs)" by (cases kv)
  from s1 obtain m ms where vs: "vs = m # ms"
    and 1: "s1 = s\<lparr>metrics_by_file := metrics_by_file s @ [set_File m k]\<rparr>"
    by (cases vs) (auto simp: file_row_def first_with_File_def kv ebind_def)
  from Cons.IH[OF rest1] have "s' = s1\<lparr>metrics_by_file := metrics_by_file s1 @ first_rows h\<rparr>" .
  then show ?case unfolding 1 by (simp add: first_rows_def kv vs)
qed

lemma generate_project_metrics_by_file_rows:
  assumes "generate_project_metrics_by_file E s = Inr s'"
  shows "\<exists>out. s' = s\<lparr>printed := printed s @ out,
    metrics_by_file := metrics_by_file s @ table_rows E (project_directory s)\<rparr>"
proof -
  from assms obtain h out where
    w: "generate_history_metrics_by_file E (project_directory s) (Some 1) = Inr (h, out)"
    and f: "efold file_row h (s\<lparr>printed := printed s @ out\<rparr>) = Inr s'"
    by (auto simp: generate_project_metrics_by_file_def ebind_eq_Inr)
  from efold_file_row_rows[OF f] w show ?thesis by (auto simp: table_rows_def)
qed

lemma inspect_project_exact:
  assumes "inspect_project E inspect_history max_history_count s = Inr s'"
  shows "metrics_by_file s' = metrics_by_file s @ table_rows E (project_directory s) \<and>
    aggregate (metrics_by_file s') = Inr (last (metrics s')) \<and>
    project_directory s' = project_directory s \<and>
    history_metrics_by_file s' =
      history_after [(E, inspect_history, max_history_count)] (project_directory s)
        (history_metrics_by_file s)"
proof -
  from assms obtain s1 s2 where 1: "generate_project_metrics_by_file E s = Inr s1"
    and 2: "generate_project_metrics s1 = Inr s2"
    and 3: "(if inspect_history then
         let max_count = (if max_history_count > 0 then Some max_history_count else None)
         in ebind (generate_history_metrics_by_file E (project_directory s2) max_count)
              (\<lambda>(h, out).
                 generate_history_metrics
                   (s2\<lparr>history_metrics_by_file := h, printed := printed s2 @ out\<rparr>))
       else Inr s2) = Inr s'"
    by (auto simp: inspect_project_def ebind_eq_Inr)
  from generate_project_metrics_by_file_rows[OF 1] obtain out where
    s1: "s1 = s\<lparr>printed := printed s @ out,
      metrics_by_file := metrics_by_file s @ table_rows E (project_directory s)\<rparr>" by blast
  from 2 obtain agg where agg: "aggregate (metrics_by_file s1) = Inr agg"
    and s2: "s2 = s1\<lparr>metrics := metrics s1 @ [agg]\<rparr>"
    by (auto simp: generate_project_metrics_def ebind_eq_Inr)
  show ?thesis
  proof (cases inspect_history)
    case False
    with 3 have "s' = s2" by simp
    with s1 s2 agg False show ?thesis by simp
  next
    case True
    with 3 obtain h out' where
      w: "generate_history_metrics_by_file E (project_directory s2)
            (if max_history_count > 0 then Some max_history_count else None) = Inr (h, out')"
      and g: "generate_history_metrics (s2\<lparr>history_metrics_by_file := h, printed := printed s2 @ out'\<rparr>) = Inr s'"
      by (auto simp: Let_def ebind_eq_Inr)
    from generate_history_metrics_effect[OF g] obtain hist where
      s': "s' = (s2\<lparr>history_metrics_by_file := h, printed := printed s2 @ out'\<rparr>)
        \<lparr>history_metrics := history_metrics s2 @ hist\<rparr>" by auto
    have dir: "project_directory s2 = project_directory s" using s1 s2 by simp
    from w have "history_after [(E, True, max_history_count)] (project_directory s)
        (history_metrics_by_file s) = h"
      unfolding dir by simp
    with s' s1 s2 agg True show ?thesis by simp
  qed
qed

lemma inspect_calls_prefix:
  assumes "inspect_calls calls s = Inr s'"
  shows "length (metrics s') = length (metrics s) + length calls \<and>
    take (length (metrics s)) (metrics s') = metrics s \<and>
    take (length (metrics_by_file s)) (metrics_by_file s') = metrics_by_file s \<and>
    take (length (history_metrics s)) (history_metrics s') = history_metrics s"
  using assms
proof (induction calls arbitrary: s)
  case Nil
  then show ?case by simp
next
  case (Cons call calls)
  obtain E b n where call: "call = (E, b, n)" by (cases call)
  with Cons.prems obtain s1 where 1: "inspect_project E b n s = Inr s1"
    and 2: "inspect_calls calls s1 = Inr s'" by (auto simp: ebind_eq_Inr)
  from inspect_project_effect[OF 1] obtain agg rows hist where
    e: "metrics s1 = metrics s @ [agg]" "metrics_by_file s1 = metrics_by_file s @ rows"
      "history_metrics s1 = history_metrics s @ hist" by auto
  from Cons.IH[OF 2] have ih: "length (metrics s') = length (metrics s1) + length calls"
    "take (length (metrics s1)) (metrics s') = metrics s1"
    "take (length (metrics_by_file s1)) (metrics_by_file s') = metrics_by_file s1"
    "take (length (history_metrics s1)) (history_metrics s') = history_metrics s1" by simp_all
  have "take (length (metrics s)) (metrics s') = metrics s"
    using ih(2) unfolding e by (rule take_prefix)
  moreover have "take (length (metrics_by_file s)) (metrics_by_file s') = metrics_by_file s"
    using ih(3) unfolding e by (rule take_prefix)
  moreover have "take (length (history_metrics s)) (history_metrics s') = history_metrics s"
    using ih(4) unfolding e by (rule take_prefix)
  moreover have "length (metrics s') = length (metrics s) + length (call # calls)"
    using ih(1) e by simp
  ultimately show ?case by simp
qed

lemma inspect_calls_rows:
  assumes "inspect_calls calls s = Inr s'"
  shows "project_directory s' = project_directory s \<and>
    metrics_by_file s' =
      metrics_by_file s @ concat (map (\<lambda>call. table_rows (fst call) (project_directory s)) calls) \<and>
    history_metrics_by_file s' =
      history_after calls (project_directory s) (history_metrics_by_file s)"
  using assms
proof (induction calls arbitrary: s)
  case Nil
  then show ?case by simp
next
  case (Cons call calls)
  obtain E b n where call: "call = (E, b, n)" by (cases call)
  with Cons.prems obtain s1 where 1: "inspect_project E b n s = Inr s1"
    and 2: "inspect_calls calls s1 = Inr s'" by (auto simp: ebind_eq_Inr)
  from inspect_project_exact[OF 1] have e:
    "metrics_by_file s1 = metrics_by_file s @ table_rows E (project_directory s)"
    "project_directory s1 = project_directory s"
    "history_metrics_by_file s1 =
      history_after [(E, b, n)] (project_directory s) (history_metrics_by_file s)"
    by simp_all
  from Cons.IH[OF 2] show ?case unfolding e call by simp
qed

lemma inspect_calls_last:
  assumes "inspect_calls calls s = Inr s'" "calls \<noteq> []"
  shows "aggregate (metrics_by_file s') = Inr (last (metrics s'))"
  using assms
proof (induction calls arbitrary: s)
  case Nil
  then show ?case by simp
next
  case (Cons call calls)
  obtain E b n where call: "call = (E, b, n)" by (cases call)
  with Cons.prems obtain s1 where 1: "inspect_project E b n s = Inr s1"
    and 2: "inspect_calls calls s1 = Inr s'" by (auto simp: ebind_eq_Inr)
  show ?case
  proof (cases "calls = []")
    case True
    with 2 have "s' = s1" by simp
    moreover from inspect_project_exact[OF 1]
    have "aggregate (metrics_by_file s1) = Inr (last (metrics s1))" by blast
    ultimately show ?thesis by simp
  next
    case False
    with Cons.IH[OF 2] show ?thesis by simp
  qed
qed

subsection \<open>Dates as strings\<close>

lemma of_char_digit: "a < 10 \<Longrightarrow> of_char (digit a) = 48 + a"
  by (simp add: digit_def)

lemma digit_less: "a < 10 \<Longrightarrow> b < 10 \<Longrightarrow> digit a < digit b \<longleftrightarrow> a < b"
  by (simp add: less_char_def of_char_digit)

lemma digit_eq: "a < 10 \<Longrightarrow> b < 10 \<Longrightarrow> digit a = digit b \<longleftrightarrow> a = b"
  using of_char_digit[of a] of_char_digit[of b] by (metis add_left_cancel)

lemma lex_pair: "b < k \<Longrightarrow> d < k \<Longrightarrow> (a < c \<or> a = c \<and> b < d) = (k * a + b < k * c + (d::nat))"
proof -
  assume b: "b < k" and d: "d < k"
  show ?thesis
  proof (cases "a < c")
    case True
    then have "Suc a \<le> c" by simp
    then have "k * Suc a \<le> k * c" by (rule mult_le_mono2)
    with b True show ?thesis by simp
  next
    case False
    show ?thesis
    proof (cases "a = c")
      case True
      then show ?thesis by simp
    next
      case F: False
      with False have "Suc c \<le> a" by simp
      then have "k * Suc c \<le> k * a" by (rule mult_le_mono2)
      with d False F show ?thesis by simp
    qed
  qed
qed

lemma two_digits:
  fixes n m :: nat
  assumes that: "0 < k"
  shows "(n div k < m div k \<or> n div k = m div k \<and> n mod k < m mod k) = (n < m)"
proof -
  have "(n div k < m div k \<or> n div k = m div k \<and> n mod k < m mod k)
    = (k * (n div k) + n mod k < k * (m div k) + m mod k)"
    using that by (intro lex_pair) simp_all
  then show ?thesis by simp
qed

lemma two_digits_eq: "(n div k = m div k \<and> n mod k = m mod k) = ((n::nat) = m)"
  by (metis div_mult_mod_eq)

lemma digits2_less:
  assumes "n < 100" "m < 100"
  shows "digits2 n < digits2 m \<longleftrightarrow> n < m"
proof -
  have d: "n div 10 < 10" "m div 10 < 10" "n mod 10 < 10" "m mod 10 < 10" using assms by simp_all
  have e: "n div 10 mod 10 = n div 10" "m div 10 mod 10 = m div 10" using d by simp_all
  have "digits2 n < digits2 m \<longleftrightarrow>
    digit (n div 10) < digit (m div 10) \<or> digit (n div 10) = digit (m div 10) \<and> digit (n mod 10) < digit (m mod 10)"
    unfolding digits2_def e by simp
  also have "\<dots> \<longleftrightarrow> n div 10 < m div 10 \<or> n div 10 = m div 10 \<and> n mod 10 < m mod 10"
    by (simp only: digit_less digit_eq d)
  also have "\<dots> \<longleftrightarrow> n < m" by (rule two_digits) simp
  finally show ?thesis .
qed

lemma digits2_eq:
  assumes "n < 100" "m < 100"
  shows "digits2 n = digits2 m \<longleftrightarrow> n = m"
proof -
  have d: "n div 10 < 10" "m div 10 < 10" "n mod 10 < 10" "m mod 10 < 10" using assms by simp_all
  have e: "n div 10 mod 10 = n div 10" "m div 10 mod 10 = m div 10" using d by simp_all
  have "digits2 n = digits2 m \<longleftrightarrow> digit (n div 10) = digit (m div 10) \<and> digit (n mod 10) = digit (m mod 10)"
    unfolding digits2_def e by simp
  also have "\<dots> \<longleftrightarrow> n div 10 = m div 10 \<and> n mod 10 = m mod 10"
    by (simp only: digit_eq d)
  also have "\<dots> \<longleftrightarrow> n = m" by (rule two_digits_eq)
  finally show ?thesis .
qed

lemma length_digits2 [simp]: "length (digits2 n) = 2"
  by (simp add: digits2_def)

lemma length_digits4 [simp]: "length (digits4 n) = 4"
  by (simp add: digits4_def)

lemma append_less:
  assumes "length xs = length ys"
  shows "xs @ us < ys @ vs \<longleftrightarrow> xs < ys \<or> xs = ys \<and> us < vs"
  using assms
proof (induction xs ys rule: list_induct2)
  case Nil
  show ?case by simp
next
  case (Cons x xs y ys)
  then show ?case by auto
qed

lemma same_length_less_irrefl:
  fixes xs ys :: "'a::linorder list"
  shows "xs < ys \<Longrightarrow> xs \<noteq> ys"
  by auto

lemma digits4_less:
  assumes "n < 10000" "m < 10000"
  shows "digits4 n < digits4 m \<longleftrightarrow> n < m"
proof -
  have d: "n div 100 < 100" "m div 100 < 100" "n mod 100 < 100" "m mod 100 < 100"
    using assms by simp_all
  have "digits4 n < digits4 m \<longleftrightarrow>
    n div 100 < m div 100 \<or> n div 100 = m div 100 \<and> n mod 100 < m mod 100"
    unfolding digits4_def by (simp add: append_less digits2_less digits2_eq d)
  also have "\<dots> \<longleftrightarrow> n < m" by (rule two_digits) simp
  finally show ?thesis .
qed

lemma digits4_eq:
  assumes "n < 10000" "m < 10000"
  shows "digits4 n = digits4 m \<longleftrightarrow> n = m"
proof -
  have d: "n div 100 < 100" "m div 100 < 100" "n mod 100 < 100" "m mod 100 < 100"
    using assms by simp_all
  have "digits4 n = digits4 m \<longleftrightarrow> n div 100 = m div 100 \<and> n mod 100 = m mod 100"
    unfolding digits4_def by (simp add: digits2_eq d)
  also have "\<dots> \<longleftrightarrow> n = m" by (rule two_digits_eq)
  finally show ?thesis .
qed

lemma strftime_less:
  assumes "four_digit_year a" "four_digit_year b"
  shows "strftime a < strftime b \<longleftrightarrow> before a b"
  using assms unfolding strftime_def before_def date_fields_def four_digit_year_def
  by (simp add: append_less digits4_less digits4_eq digits2_less digits2_eq)

lemma strftime_eq:
  assumes "four_digit_year a" "four_digit_year b"
  shows "strftime a = strftime b \<longleftrightarrow> date_fields a = date_fields b"
  using assms unfolding strftime_def date_fields_def four_digit_year_def
  by (simp add: digits4_eq digits2_eq)

subsection \<open>The timeline and the current files\<close>

lemma fold_fold_concat: "fold (\<lambda>xs. fold f xs) xss a = fold f (concat xss) a"
  by (induction xss arbitrary: a) simp_all

lemma group_by_date_pairs:
  "group_by_date h = group_pairs (map (\<lambda>m. (Date m, m)) (concat (map snd h)))"
proof -
  have "fold (\<lambda>xs. fold (\<lambda>m. dd_append (Date m) m) xs) (map snd h) []
      = fold (\<lambda>m. dd_append (Date m) m) (concat (map snd h)) []"
    by (rule fold_fold_concat)
  then show ?thesis
    by (simp add: group_by_date_def group_pairs_def add_pairs_def fold_map comp_def)
qed

lemma dd_get_group_by_date:
  "dd_get (group_by_date h) d = filter (\<lambda>m. Date m = d) (concat (map snd h))"
  by (simp add: group_by_date_pairs group_pairs_def dd_get_add_pairs filter_map comp_def)

lemma keys_group_by_date:
  "distinct (map fst (group_by_date h))"
  "set (map fst (group_by_date h)) = Date ` set (concat (map snd h))"
proof -
  show "distinct (map fst (group_by_date h))"
    by (simp add: group_by_date_pairs group_pairs_def distinct_add_pairs)
  have "fst ` set (group_by_date h) = fst ` set (map (\<lambda>m. (Date m, m)) (concat (map snd h)))"
    by (simp add: group_by_date_pairs group_pairs_def keys_add_pairs)
  then show "set (map fst (group_by_date h)) = Date ` set (concat (map snd h))"
    by (simp add: image_image)
qed

lemma sorted_reverse_props:
  "sorted (rev (sorted_reverse ks))" "set (sorted_reverse ks) = set ks"
  "distinct ks \<Longrightarrow> distinct (sorted_reverse ks)"
  by (simp_all add: sorted_reverse_def)

lemma list_all2_rows:
  assumes "list_all2 (\<lambda>d row. Date row = d \<and> P d row) ds rows"
  shows "map Date rows = ds \<and> (\<forall>row\<in>set rows. P (Date row) row)"
  using assms by (induction ds rows rule: list_all2_induct) auto

lemma inspect_project_by_file:
  assumes "inspect_project E inspect_history max_history_count s = Inr s'"
  shows "\<exists>s1. generate_project_metrics_by_file E s = Inr s1 \<and> metrics_by_file s' = metrics_by_file s1"
proof -
  from assms obtain s1 s2 where 1: "generate_project_metrics_by_file E s = Inr s1"
    and 2: "generate_project_metrics s1 = Inr s2"
    and 3: "(if inspect_history then
         let max_count = (if max_history_count > 0 then Some max_history_count else None)
         in ebind (generate_history_metrics_by_file E (project_directory s2) max_count)
              (\<lambda>(h, out).
                 generate_history_metrics
                   (s2\<lparr>history_metrics_by_file := h, printed := printed s2 @ out\<rparr>))
       else Inr s2) = Inr s'"
    by (auto simp: inspect_project_def ebind_eq_Inr)
  from generate_project_metrics_effect[OF 2] obtain agg where
    s2: "s2 = s1\<lparr>metrics := metrics s1 @ [agg]\<rparr>" by auto
  have "metrics_by_file s' = metrics_by_file s1"
  proof (cases inspect_history)
    case False
    with 3 s2 show ?thesis by auto
  next
    case True
    with 3 obtain h out' where
      "generate_history_metrics (s2\<lparr>history_metrics_by_file := h, printed := printed s2 @ out'\<rparr>) = Inr s'"
      by (auto simp: Let_def ebind_eq_Inr)
    from generate_history_metrics_effect[OF this] s2 show ?thesis by auto
  qed
  with 1 show ?thesis by blast
qed

lemma contribution_stems:
  assumes "item_succeeds E r c item"
  shows "map fst (contribution E r c item) = (if contributes r c item then [file_stem item] else [])"
  using assms
  by (auto simp: contribution_def contributes_def item_succeeds_def split: sum.splits)

lemma contributions_stems:
  assumes "list_all (item_succeeds E r c) items"
  shows "map fst (concat (map (contribution E r c) items)) = map file_stem (filter (contributes r c) items)"
  using assms by (induction items) (simp_all add: contribution_stems)

lemma head_contributions:
  assumes "commit_log r = head # older"
  shows "contributions E r (Some 1) = concat (map (contribution E r head) (tree_traverse head))"
  using assms by (simp add: contributions_def rev_list_def)

lemma head_succeeds:
  assumes "commit_log r = head # older" "walk_succeeds E r (Some 1)"
  shows "list_all (item_succeeds E r head) (tree_traverse head)"
  using assms by (simp add: walk_succeeds_def rev_list_def)

lemma File_set_File: "map File (map (\<lambda>kv. set_File (snd kv) (fst kv)) kvs) = map fst kvs"
  by (simp add: set_File_def comp_def)

subsection \<open>The example repository, evaluated\<close>

lemma digit_values:
  "digit 0 = CHR ''0''" "digit 1 = CHR ''1''" "digit 2 = CHR ''2''" "digit 3 = CHR ''3''"
  "digit 4 = CHR ''4''" "digit 5 = CHR ''5''" "digit 6 = CHR ''6''" "digit 7 = CHR ''7''"
  "digit 8 = CHR ''8''" "digit 9 = CHR ''9''" "digit (Suc 0) = CHR ''1''"
  by code_simp+

lemmas example_defs =
  example_env_def example_repo_def twins_repo_def empty_repo_def example_head_def
  example_first_def twins_head_def example_show_def example_clock_def example_date_def
  example_radon_def blob_def example_row_def

lemmas walk_defs =
  contributions_def contribution_def rev_list_def qualifies_def endswith_def content_at_def
  file_stem_def splitext_root_def rfind_def Let_def upt_rec measured_def extraction_def mean_def
  strftime_def digits4_def digits2_def digit_values set_Date_def

lemma example_current: "contributions example_env example_repo (Some 1) =
  [(''util'', example_row 1 ''1970-01-01 01:00:00''), (''core'', example_row 1 ''1970-01-01 01:00:00'')]"
  by (simp add: example_defs walk_defs)

lemma example_history: "contributions example_env example_repo None =
  [(''util'', example_row 1 ''1970-01-01 01:00:00''), (''core'', example_row 1 ''1970-01-01 01:00:00''),
   (''util'', example_row 1 ''1970-01-01 00:01:00'')]"
  by (simp add: example_defs walk_defs)

lemma twins_current: "contributions example_env twins_repo (Some 1) =
  [(''util'', example_row 1 ''1970-01-01 02:00:00''), (''util'', example_row 2 ''1970-01-01 02:00:00'')]"
  by (simp add: example_defs walk_defs)

lemma example_reads:
  "reads_succeed example_repo (Some 1)" "reads_succeed example_repo None"
  "reads_succeed twins_repo (Some 1)"
  by (simp_all add: reads_succeed_def example_defs walk_defs)

lemma example_succeeds:
  "walk_succeeds example_env example_repo None" "\<not> walk_succeeds example_env empty_repo None"
  by (simp_all add: walk_succeeds_def item_succeeds_def example_defs walk_defs)

lemma aggregate_example:
  assumes "\<forall>m\<in>set ms. Ciclomatic_Complexity m = PyInt 1 \<and> Maintainability m = PyFloat (dbl 100 0)"
    "0 < sum_list (map Lines_of_Code ms)" "sum_list (map Lines_of_Code ms) \<le> 1000"
  shows "aggregate ms = Inr (example_total (sum_list (map Lines_of_Code ms)))"
proof -
  let ?L = "sum_list (map Lines_of_Code ms)"
  have L: "int ?L \<le> 1000" using assms(3) by simp
  have c: "weighted_mean Ciclomatic_Complexity ms = Inr (PyFloat (dbl 1 0))"
    using assms(1,2) L by (intro same_complexity_mean) simp_all
  have m: "weighted_mean Maintainability ms = Inr (PyFloat (dbl 100 0))"
    using assms(1,2) L by (intro same_complexity_mean) simp_all
  show ?thesis
    by (simp add: aggregate_formula[OF assms(2)] c m example_total_def)
qed

lemmas run_defs =
  generate_history_metrics_by_file_def visit_item_def calculate_metrics_def try_except_def
  ebind_def iter_commits_def rev_list_def qualifies_def endswith_def
  splitext_root_def rfind_def Let_def upt_rec extraction_def mean_def
  strftime_def digits4_def digits2_def digit_values set_Date_def

lemma example_walk_current:
  "generate_history_metrics_by_file example_env ''proj'' (Some 1) =
     Inr ([(''util'', [example_row 1 ''1970-01-01 01:00:00'']),
           (''core'', [example_row 1 ''1970-01-01 01:00:00''])], [])"
  by (simp add: example_defs run_defs)

lemma example_walk_history:
  "generate_history_metrics_by_file example_env ''proj'' None =
     Inr ([(''util'', [example_row 1 ''1970-01-01 01:00:00'', example_row 1 ''1970-01-01 00:01:00'']),
           (''core'', [example_row 1 ''1970-01-01 01:00:00''])], [])"
  by (simp add: example_defs run_defs)

lemma twins_walk_current:
  "generate_history_metrics_by_file example_env ''twins'' (Some 1) =
     Inr ([(''util'', [example_row 1 ''1970-01-01 02:00:00'', example_row 2 ''1970-01-01 02:00:00''])], [])"
  by (simp add: example_defs run_defs)

lemma empty_walk:
  "generate_history_metrics_by_file example_env ''empty'' None =
     Inl (Exception ''Reference at HEAD does not exist'')"
  by (simp add: example_defs run_defs)

lemmas state_defs =
  inspect_project_def generate_project_metrics_by_file_def generate_project_metrics_def
  file_row_def first_with_File_def init_def ebind_def example_file_row_def set_File_def
  example_row_def aggregate_example example_total_def set_Date_def

lemma example_timeline_run:
  "generate_history_metrics (init ''proj''\<lparr>history_metrics_by_file := example_file_history\<rparr>) =
     Inr (init ''proj''\<lparr>history_metrics_by_file := example_file_history,
            history_metrics := example_timeline\<rparr>)"
  by (simp add: generate_history_metrics_def group_by_date_def sorted_reverse_def date_row_def
      dd_get_def example_file_history_def example_timeline_def state_defs)

lemma example_run:
  "inspect_project example_env False 0 (init ''proj'') = Inr example_after_one"
  by (simp add: example_walk_current example_after_one_def state_defs)

lemma twins_run:
  "inspect_project example_env False 0 (init ''twins'') = Inr twins_after_one"
  by (simp add: twins_walk_current twins_after_one_def state_defs)

lemma example_second_run:
  "inspect_project example_env True 0 example_after_one = Inr example_after_two"
  by (simp add: example_walk_current example_walk_history example_after_one_def
      example_after_two_def generate_history_metrics_def group_by_date_def sorted_reverse_def
      date_row_def dd_get_def example_file_history_def example_timeline_def state_defs)

lemma example_third_run:
  "inspect_project example_env True 1 example_after_two = Inr example_after_three"
  by (simp add: example_walk_current example_after_two_def
      example_after_three_def generate_history_metrics_def group_by_date_def sorted_reverse_def
      date_row_def dd_get_def example_file_history_def example_timeline_def state_defs)

lemma example_two_calls:
  "inspect_calls [(example_env, False, 0), (example_env, True, 0)] (init ''proj'') =
     Inr example_after_two"
  by (simp add: example_run example_second_run ebind_def)

lemma example_table_rows:
  "table_rows example_env ''proj'' =
     [example_file_row ''util'' 1 ''1970-01-01 01:00:00'',
      example_file_row ''core'' 1 ''1970-01-01 01:00:00'']"
  by (simp add: table_rows_def first_rows_def example_walk_current example_file_row_def)

lemma example_git_Repo:
  "git_Repo example_env ''proj'' = Inr example_repo" "git_Repo example_env ''twins'' = Inr twins_repo"
  "git_Repo example_env ''empty'' = Inr empty_repo"
  by (simp_all add: example_env_def)

lemma example_items:
  "file_stem (blob ''pkg/__init__.py'' ''__init__.py'') = ''__init__''"
  "content_at example_repo example_first (blob ''b/empty.py'' ''empty.py'') = Inr []"
  "qualifies (blob ''a/util.py'' ''util.py'')"
  "content_at example_repo example_first (blob ''a/util.py'' ''util.py'') = Inr ''x = 0''"
  "file_stem (blob ''a/util.py'' ''util.py'') = ''util''"
  "fromtimestamp example_env (committed_date example_first) = Inr (example_date 60)"
  by (simp_all add: example_defs walk_defs)

lemma example_measured:
  "set_Date (measured (radon example_env) ''x = 0'') (strftime (example_date 60)) =
   example_row 1 ''1970-01-01 00:01:00''"
  by (simp add: example_defs walk_defs)

section \<open>The claims about the walk and the tables\<close>

text \<open>
  C5. Let \<^verbatim>\<open>git.Repo\<close> open the repository. The walk returns exactly when the repository
  has a commit and every call that the walk makes for the entries it visits answers:
  \<^verbatim>\<open>fromtimestamp\<close>, \<^verbatim>\<open>git show\<close> and, where radon fails, the \<^verbatim>\<open>print\<close> of the diagnostic.
  When it returns, the history holds under each stem the contributions of the entries with
  that stem, in the order of the walk, and nothing else. An entry whose stem is
  \<^verbatim>\<open>__init__\<close> or whose content at the commit is empty contributes nothing, so \<^verbatim>\<open>__init__\<close>
  is never a key of the history. Every other blob whose path ends in \<^verbatim>\<open>.py\<close> contributes
  exactly one sample for each commit in which it appears: the metrics of its content at
  that commit, with the date of the commit.
\<close>

theorem history_by_file_contributions:
  assumes "git_Repo E dir = Inr r"
  shows "((\<exists>h out. generate_history_metrics_by_file E dir max_count = Inr (h, out)) \<longleftrightarrow>
      walk_succeeds E r max_count) \<and>
    (\<forall>h out. generate_history_metrics_by_file E dir max_count = Inr (h, out) \<longrightarrow>
      (\<forall>k. dd_get h k = map snd (filter (\<lambda>kv. fst kv = k) (contributions E r max_count))) \<and>
      distinct (map fst h) \<and>
      fst ` set h = fst ` set (contributions E r max_count) \<and>
      ''__init__'' \<notin> fst ` set h \<and>
      length (concat (map snd h)) = length (contributions E r max_count)) \<and>
    (\<forall>c item. file_stem item = ''__init__'' \<or> content_at r c item = Inr []
       \<longrightarrow> contribution E r c item = []) \<and>
    (\<forall>c item file_content d. qualifies item \<and> fromtimestamp E (committed_date c) = Inr d \<and>
        content_at r c item = Inr file_content \<and>
        file_content \<noteq> [] \<and> file_stem item \<noteq> ''__init__''
       \<longrightarrow> contribution E r c item =
         [(file_stem item, set_Date (measured (radon E) file_content) (strftime d))])"
proof (intro conjI allI impI)
  show "(\<exists>h out. generate_history_metrics_by_file E dir max_count = Inr (h, out)) \<longleftrightarrow>
      walk_succeeds E r max_count"
    using walk_succeeded[OF assms] walk_contributions[OF assms] by blast
next
  fix h out
  let ?kvs = "contributions E r max_count"
  assume w: "generate_history_metrics_by_file E dir max_count = Inr (h, out)"
  from walk_result[OF assms w] have h: "h = group_pairs ?kvs" .
  show "dd_get h k = map snd (filter (\<lambda>kv. fst kv = k) ?kvs)" for k
    unfolding h by (simp add: group_pairs_def dd_get_add_pairs)
  show "distinct (map fst h)"
    unfolding h by (simp add: group_pairs_def distinct_add_pairs)
  show 3: "fst ` set h = fst ` set ?kvs"
    unfolding h by (simp add: group_pairs_def keys_add_pairs)
  show "''__init__'' \<notin> fst ` set h"
    unfolding 3 using contributions_stem[of _ E r max_count] by fastforce
  show "length (concat (map snd h)) = length ?kvs"
    unfolding h by (simp add: group_pairs_def total_add_pairs)
next
  fix c item
  assume "file_stem item = ''__init__'' \<or> content_at r c item = Inr []"
  then show "contribution E r c item = []" by (rule contribution_excluded)
next
  fix c item file_content d
  assume "qualifies item \<and> fromtimestamp E (committed_date c) = Inr d \<and>
        content_at r c item = Inr file_content \<and>
        file_content \<noteq> [] \<and> file_stem item \<noteq> ''__init__''"
  then show "contribution E r c item =
         [(file_stem item, set_Date (measured (radon E) file_content) (strftime d))]"
    by (intro contribution_included) simp_all
qed

theorem history_by_file_contributions_witness:
  "git_Repo example_env ''proj'' = Inr example_repo \<and> walk_succeeds example_env example_repo None \<and>
   generate_history_metrics_by_file example_env ''proj'' None = Inr (example_file_history, []) \<and>
   dd_get example_file_history ''util'' =
     [example_row 1 ''1970-01-01 01:00:00'', example_row 1 ''1970-01-01 00:01:00''] \<and>
   ''__init__'' \<notin> fst ` set example_file_history \<and>
   length (concat (map snd example_file_history)) = 3 \<and>
   file_stem (blob ''pkg/__init__.py'' ''__init__.py'') = ''__init__'' \<and>
   contribution example_env example_repo example_head (blob ''pkg/__init__.py'' ''__init__.py'') = [] \<and>
   content_at example_repo example_first (blob ''b/empty.py'' ''empty.py'') = Inr [] \<and>
   contribution example_env example_repo example_first (blob ''b/empty.py'' ''empty.py'') = [] \<and>
   contribution example_env example_repo example_first (blob ''a/util.py'' ''util.py'') =
     [(''util'', example_row 1 ''1970-01-01 00:01:00'')] \<and>
   git_Repo example_env ''empty'' = Inr empty_repo \<and>
   \<not> walk_succeeds example_env empty_repo None \<and>
   generate_history_metrics_by_file example_env ''empty'' None =
     Inl (Exception ''Reference at HEAD does not exist'')"
proof -
  note r = example_git_Repo(1) and ws = example_succeeds(1)
  note T = history_by_file_contributions[OF r, of None]
  from T ws obtain h out where
    w: "generate_history_metrics_by_file example_env ''proj'' None = Inr (h, out)"
    by blast
  from w have h: "h = example_file_history" and out: "out = []"
    by (simp_all add: example_walk_history example_file_history_def)
  from T w have g: "\<forall>k. dd_get h k = map snd (filter (\<lambda>kv. fst kv = k) (contributions example_env example_repo None))"
    and i: "''__init__'' \<notin> fst ` set h"
    and l: "length (concat (map snd h)) = length (contributions example_env example_repo None)"
    by blast+
  from T have ex: "\<forall>c item. file_stem item = ''__init__'' \<or> content_at example_repo c item = Inr []
       \<longrightarrow> contribution example_env example_repo c item = []"
    by blast
  from T have inc: "\<forall>c item file_content d. qualifies item \<and>
        fromtimestamp example_env (committed_date c) = Inr d \<and>
        content_at example_repo c item = Inr file_content \<and>
        file_content \<noteq> [] \<and> file_stem item \<noteq> ''__init__''
       \<longrightarrow> contribution example_env example_repo c item =
         [(file_stem item, set_Date (measured (radon example_env) file_content) (strftime d))]"
    by blast
  have 1: "dd_get example_file_history ''util'' =
     [example_row 1 ''1970-01-01 01:00:00'', example_row 1 ''1970-01-01 00:01:00'']"
    using g unfolding h by (simp add: example_history)
  have 2: "length (concat (map snd example_file_history)) = 3"
    using l unfolding h by (simp add: example_history)
  have 3: "contribution example_env example_repo example_head (blob ''pkg/__init__.py'' ''__init__.py'') = []"
    using ex example_items(1) by blast
  have 4: "contribution example_env example_repo example_first (blob ''b/empty.py'' ''empty.py'') = []"
    using ex example_items(2) by blast
  have 5: "contribution example_env example_repo example_first (blob ''a/util.py'' ''util.py'') =
     [(''util'', example_row 1 ''1970-01-01 00:01:00'')]"
    using inc[rule_format, of "blob ''a/util.py'' ''util.py''" example_first "example_date 60" "''x = 0''"]
    by (simp add: example_items example_measured)
  from r ws w i 1 2 3 4 5 example_items(1,2) example_git_Repo(3) example_succeeds(2) empty_walk
  show ?thesis unfolding h out by simp
qed

text \<open>
  C10, as stated, fails for one of the four accumulators: the history by file is assigned,
  not appended to. In the example the second call leaves three samples in it, and the
  third call, which walks one commit, leaves two: the older sample of \<^verbatim>\<open>util\<close> is gone.
\<close>

theorem inspect_calls_history_replaced:
  "inspect_calls [(example_env, False, 0), (example_env, True, 0)] (init ''proj'') =
     Inr example_after_two \<and>
   inspect_project example_env True 1 example_after_two = Inr example_after_three \<and>
   dd_get (history_metrics_by_file example_after_two) ''util'' =
     [example_row 1 ''1970-01-01 01:00:00'', example_row 1 ''1970-01-01 00:01:00''] \<and>
   dd_get (history_metrics_by_file example_after_three) ''util'' =
     [example_row 1 ''1970-01-01 01:00:00''] \<and>
   length (concat (map snd (history_metrics_by_file example_after_two))) = 3 \<and>
   length (concat (map snd (history_metrics_by_file example_after_three))) = 2"
  using example_two_calls example_third_run
  by (simp add: example_after_two_def example_after_three_def example_file_history_def dd_get_def)

text \<open>
  C10, amended. The three lists are only appended to. For any sequence of calls of
  \<^verbatim>\<open>inspect_project\<close> on one object that raise no exception, the list of overall snapshots
  grows by exactly one record per call, so that after \<open>k\<close> calls on a new object the overall
  table has \<open>k\<close> rows, and what the three lists held before the calls is still there, at
  the same places. Every call appends the per-file rows of its walk over the newest commit
  once more, and the overall record of the last call is the aggregate of the whole table
  of per-file rows, those of the earlier calls included. The history by file is not
  appended to: it is what the walk of the last call that inspected the history returned.
\<close>

theorem inspect_calls_append_only:
  assumes "inspect_calls calls s = Inr s'"
  shows "length (metrics s') = length (metrics s) + length calls \<and>
    take (length (metrics s)) (metrics s') = metrics s \<and>
    take (length (metrics_by_file s)) (metrics_by_file s') = metrics_by_file s \<and>
    take (length (history_metrics s)) (history_metrics s') = history_metrics s \<and>
    metrics_by_file s' =
      metrics_by_file s @ concat (map (\<lambda>call. table_rows (fst call) (project_directory s)) calls) \<and>
    (calls \<noteq> [] \<longrightarrow> aggregate (metrics_by_file s') = Inr (last (metrics s'))) \<and>
    history_metrics_by_file s' =
      history_after calls (project_directory s) (history_metrics_by_file s)"
  using inspect_calls_prefix[OF assms] inspect_calls_rows[OF assms] inspect_calls_last[OF assms]
  by blast

theorem inspect_calls_append_only_witness:
  "inspect_calls [(example_env, False, 0)] (init ''proj'') = Inr example_after_one \<and>
   inspect_calls [(example_env, True, 0)] example_after_one = Inr example_after_two \<and>
   metrics example_after_one = [example_total 2] \<and>
   metrics example_after_two = [example_total 2, example_total 4] \<and>
   length (metrics example_after_two) = length (metrics example_after_one) + 1 \<and>
   take (length (metrics example_after_one)) (metrics example_after_two) = metrics example_after_one \<and>
   take (length (metrics_by_file example_after_one)) (metrics_by_file example_after_two) =
     metrics_by_file example_after_one \<and>
   length (metrics_by_file example_after_two) = 4 \<and>
   table_rows example_env ''proj'' =
     [example_file_row ''util'' 1 ''1970-01-01 01:00:00'',
      example_file_row ''core'' 1 ''1970-01-01 01:00:00''] \<and>
   metrics_by_file example_after_two =
     metrics_by_file example_after_one @ table_rows example_env ''proj'' \<and>
   aggregate (metrics_by_file example_after_two) = Inr (example_total 4) \<and>
   history_metrics_by_file example_after_one = [] \<and>
   history_metrics_by_file example_after_two = example_file_history"
proof -
  have 1: "inspect_calls [(example_env, False, 0)] (init ''proj'') = Inr example_after_one"
    by (simp add: example_run ebind_def)
  have 2: "inspect_calls [(example_env, True, 0)] example_after_one = Inr example_after_two"
    by (simp add: example_second_run ebind_def)
  note T = inspect_calls_append_only[OF 2]
  have dir: "project_directory example_after_one = ''proj''"
    by (simp add: example_after_one_def)
  have ne: "[(example_env, True, 0::int)] \<noteq> []" by simp
  from T have "length (metrics example_after_two) =
      length (metrics example_after_one) + length [(example_env, True, 0::int)]"
    by blast
  then have a: "length (metrics example_after_two) = length (metrics example_after_one) + 1"
    by simp
  from T have b: "take (length (metrics example_after_one)) (metrics example_after_two) = metrics example_after_one"
    and c: "take (length (metrics_by_file example_after_one)) (metrics_by_file example_after_two) =
     metrics_by_file example_after_one"
    by blast+
  from T have "metrics_by_file example_after_two =
     metrics_by_file example_after_one @
       concat (map (\<lambda>call. table_rows (fst call) (project_directory example_after_one))
         [(example_env, True, 0::int)])"
    by blast
  then have d: "metrics_by_file example_after_two =
     metrics_by_file example_after_one @ table_rows example_env ''proj''"
    unfolding dir by simp
  from T ne have "aggregate (metrics_by_file example_after_two) = Inr (last (metrics example_after_two))"
    by blast
  then have e: "aggregate (metrics_by_file example_after_two) = Inr (example_total 4)"
    by (simp add: example_after_two_def)
  have f: "metrics example_after_one = [example_total 2]"
    "metrics example_after_two = [example_total 2, example_total 4]"
    "length (metrics_by_file example_after_two) = 4"
    "history_metrics_by_file example_after_one = []"
    "history_metrics_by_file example_after_two = example_file_history"
    by (simp_all add: example_after_one_def example_after_two_def)
  from 1 2 a b c d e f example_table_rows show ?thesis by simp
qed

text \<open>
  C6. \<^verbatim>\<open>_generate_history_metrics\<close>, when it raises no exception, appends one row per date
  string that occurs in the history by file: the dates of the new rows are pairwise
  different, they are exactly the date strings of the samples, and they descend in the
  lexicographic order of strings. The row of a date is the aggregate of all the samples
  that carry this very string, whichever file they belong to, in the order of the history.
  For dates with a four-digit year the order of the strings is the order of the dates, and two
  strings are equal exactly when the dates are.
\<close>

theorem history_timeline:
  assumes "generate_history_metrics s = Inr s'"
  shows "(\<exists>rows. history_metrics s' = history_metrics s @ rows \<and>
      sorted (rev (map Date rows)) \<and> distinct (map Date rows) \<and>
      set (map Date rows) = Date ` set (concat (map snd (history_metrics_by_file s))) \<and>
      (\<forall>row\<in>set rows.
         aggregate (filter (\<lambda>m. Date m = Date row) (concat (map snd (history_metrics_by_file s))))
           = Inr (drop_Date row))) \<and>
    (\<forall>a b. four_digit_year a \<and> four_digit_year b \<longrightarrow>
       (strftime a < strftime b \<longleftrightarrow> before a b) \<and> (strftime a = strftime b \<longleftrightarrow> date_fields a = date_fields b))"
proof (intro conjI allI impI)
  let ?h = "history_metrics_by_file s"
  let ?ds = "sorted_reverse (map fst (group_by_date ?h))"
  from assms have "efold (date_row (group_by_date ?h)) ?ds s = Inr s'"
    by (simp add: generate_history_metrics_def Let_def)
  from efold_date_row[OF this] obtain rows where
    s': "s' = s\<lparr>history_metrics := history_metrics s @ rows\<rparr>"
    and all: "list_all2 (\<lambda>d row. Date row = d \<and>
      aggregate (dd_get (group_by_date ?h) d) = Inr (drop_Date row)) ?ds rows"
    by blast
  from list_all2_rows[OF all] have dates: "map Date rows = ?ds"
    and agg: "\<forall>row\<in>set rows. aggregate (dd_get (group_by_date ?h) (Date row)) = Inr (drop_Date row)"
    by simp_all
  have "history_metrics s' = history_metrics s @ rows" using s' by simp
  moreover have "sorted (rev (map Date rows))" unfolding dates by (rule sorted_reverse_props)
  moreover have "distinct (map Date rows)" unfolding dates
    by (intro sorted_reverse_props keys_group_by_date)
  moreover have "set (map Date rows) = Date ` set (concat (map snd ?h))"
    unfolding dates sorted_reverse_props keys_group_by_date ..
  moreover have "\<forall>row\<in>set rows.
      aggregate (filter (\<lambda>m. Date m = Date row) (concat (map snd ?h))) = Inr (drop_Date row)"
    using agg by (simp add: dd_get_group_by_date)
  ultimately show "\<exists>rows. history_metrics s' = history_metrics s @ rows \<and>
      sorted (rev (map Date rows)) \<and> distinct (map Date rows) \<and>
      set (map Date rows) = Date ` set (concat (map snd ?h)) \<and>
      (\<forall>row\<in>set rows.
         aggregate (filter (\<lambda>m. Date m = Date row) (concat (map snd ?h))) = Inr (drop_Date row))"
    by blast
next
  fix a b
  assume "four_digit_year a \<and> four_digit_year b"
  then show "strftime a < strftime b \<longleftrightarrow> before a b" by (simp add: strftime_less)
next
  fix a b
  assume "four_digit_year a \<and> four_digit_year b"
  then show "strftime a = strftime b \<longleftrightarrow> date_fields a = date_fields b" by (simp add: strftime_eq)
qed

theorem history_timeline_witness:
  "generate_history_metrics (init ''proj''\<lparr>history_metrics_by_file := example_file_history\<rparr>) =
     Inr (init ''proj''\<lparr>history_metrics_by_file := example_file_history,
            history_metrics := example_timeline\<rparr>) \<and>
   map Date example_timeline = [''1970-01-01 01:00:00'', ''1970-01-01 00:01:00''] \<and>
   sorted (rev (map Date example_timeline)) \<and>
   filter (\<lambda>m. Date m = ''1970-01-01 01:00:00'') (concat (map snd example_file_history)) =
     [example_row 1 ''1970-01-01 01:00:00'', example_row 1 ''1970-01-01 01:00:00''] \<and>
   aggregate [example_row 1 ''1970-01-01 01:00:00'', example_row 1 ''1970-01-01 01:00:00''] =
     Inr (example_total 2) \<and>
   four_digit_year (example_date 60) \<and> four_digit_year (example_date 3600) \<and>
   before (example_date 60) (example_date 3600) \<and>
   strftime (example_date 60) < strftime (example_date 3600)"
proof -
  let ?s = "init ''proj''\<lparr>history_metrics_by_file := example_file_history\<rparr>"
  let ?s' = "init ''proj''\<lparr>history_metrics_by_file := example_file_history,
            history_metrics := example_timeline\<rparr>"
  note T = history_timeline[OF example_timeline_run]
  from T obtain rows where rows: "history_metrics ?s' = history_metrics ?s @ rows"
    and sorted: "sorted (rev (map Date rows))"
    and agg: "\<forall>row\<in>set rows.
         aggregate (filter (\<lambda>m. Date m = Date row) (concat (map snd (history_metrics_by_file ?s))))
           = Inr (drop_Date row)"
    by blast
  from rows have r: "rows = example_timeline" by (simp add: init_def)
  have dates: "map Date example_timeline = [''1970-01-01 01:00:00'', ''1970-01-01 00:01:00'']"
    by (simp add: example_timeline_def set_Date_def)
  have f: "filter (\<lambda>m. Date m = ''1970-01-01 01:00:00'') (concat (map snd example_file_history)) =
     [example_row 1 ''1970-01-01 01:00:00'', example_row 1 ''1970-01-01 01:00:00'']"
    by (simp add: example_file_history_def example_row_def)
  have "aggregate (filter (\<lambda>m. Date m = ''1970-01-01 01:00:00'') (concat (map snd example_file_history)))
    = Inr (example_total 2)"
    using agg unfolding r by (simp add: example_timeline_def set_Date_def drop_Date_def example_total_def)
  then have a: "aggregate [example_row 1 ''1970-01-01 01:00:00'', example_row 1 ''1970-01-01 01:00:00''] =
     Inr (example_total 2)"
    unfolding f .
  have y: "four_digit_year (example_date 60)" "four_digit_year (example_date 3600)"
    by (simp_all add: four_digit_year_def example_date_def)
  have b: "before (example_date 60) (example_date 3600)"
    by (simp add: before_def date_fields_def example_date_def)
  from T y b have lt: "strftime (example_date 60) < strftime (example_date 3600)" by blast
  from example_timeline_run dates sorted a f y b lt show ?thesis unfolding r by simp
qed

text \<open>
  C4, as stated, fails: the newest commit of the second example repository has three blobs
  whose paths end in \<^verbatim>\<open>.py\<close>, and the table of the current files gets one row. The package
  file is left out, and the two modules named \<^verbatim>\<open>util.py\<close> fall under one stem, of which the
  first sample is kept.
\<close>

theorem current_files_table_counterexample:
  "git_Repo example_env ''twins'' = Inr twins_repo \<and>
   commit_log twins_repo = [twins_head] \<and>
   map item_path (filter qualifies (tree_traverse twins_head)) =
     [''pkg/__init__.py'', ''a/util.py'', ''b/util.py''] \<and>
   contributions example_env twins_repo (Some 1) =
     [(''util'', example_row 1 ''1970-01-01 02:00:00''),
      (''util'', example_row 2 ''1970-01-01 02:00:00'')] \<and>
   inspect_project example_env False 0 (init ''twins'') = Inr twins_after_one \<and>
   metrics_by_file twins_after_one = [example_file_row ''util'' 1 ''1970-01-01 02:00:00'']"
proof -
  have "map item_path (filter qualifies (tree_traverse twins_head)) =
     [''pkg/__init__.py'', ''a/util.py'', ''b/util.py'']"
    by (simp add: example_defs walk_defs)
  with example_git_Repo(2) twins_current twins_run show ?thesis
    by (simp add: twins_repo_def twins_after_one_def)
qed

text \<open>
  C4, amended. The table of the current files of a new object comes from the walk with
  \<^verbatim>\<open>max_count = 1\<close>, that is from the newest commit of the log and from what
  \<^verbatim>\<open>git show\<close> answers there. When no exception is raised and no two contributing entries
  of that commit have the same stem, the table has exactly one row per contributing entry,
  in the order of the traversal and under the stem of its name: one row per blob whose path
  ends in \<^verbatim>\<open>.py\<close>, whose content at the commit is not empty and whose stem is not
  \<^verbatim>\<open>__init__\<close>.
\<close>

theorem current_files_table:
  assumes "git_Repo E dir = Inr r" "commit_log r = head # older" "reads_succeed r (Some 1)"
    "distinct (map file_stem (filter (contributes r head) (tree_traverse head)))"
    "inspect_project E inspect_history max_history_count (init dir) = Inr s'"
  shows "metrics_by_file s' =
      map (\<lambda>kv. set_File (snd kv) (fst kv)) (concat (map (contribution E r head) (tree_traverse head))) \<and>
    map File (metrics_by_file s') = map file_stem (filter (contributes r head) (tree_traverse head))"
proof -
  let ?kvs = "concat (map (contribution E r head) (tree_traverse head))"
  have kvs: "contributions E r (Some 1) = ?kvs" using assms(2) by (rule head_contributions)
  from inspect_project_by_file[OF assms(5)] obtain s1 where
    1: "generate_project_metrics_by_file E (init dir) = Inr s1"
    and 2: "metrics_by_file s' = metrics_by_file s1" by blast
  have dir: "git_Repo E (project_directory (init dir)) = Inr r"
    using assms(1) by (simp add: init_def)
  from project_metrics_by_file_rows[OF dir 1]
  have ws: "walk_succeeds E r (Some 1)"
    and s1: "metrics_by_file s1 = metrics_by_file (init dir) @
      map (\<lambda>kv. set_File (hd (snd kv)) (fst kv)) (group_pairs (contributions E r (Some 1)))"
    by auto
  have stems: "map fst ?kvs = map file_stem (filter (contributes r head) (tree_traverse head))"
    using head_succeeds[OF assms(2) ws] by (rule contributions_stems)
  have "distinct (map fst ?kvs)" unfolding stems by (rule assms(4))
  with s1 have rows: "metrics_by_file s' = map (\<lambda>kv. set_File (snd kv) (fst kv)) ?kvs"
    unfolding 2 kvs by (simp add: group_pairs_distinct init_def comp_def)
  moreover have "map File (metrics_by_file s') = map file_stem (filter (contributes r head) (tree_traverse head))"
    unfolding rows File_set_File by (rule stems)
  ultimately show ?thesis by simp
qed

theorem current_files_table_witness:
  "git_Repo example_env ''proj'' = Inr example_repo \<and>
   commit_log example_repo = example_head # [example_first] \<and>
   reads_succeed example_repo (Some 1) \<and>
   map file_stem (filter (contributes example_repo example_head) (tree_traverse example_head)) =
     [''util'', ''core''] \<and>
   inspect_project example_env False 0 (init ''proj'') = Inr example_after_one \<and>
   metrics_by_file example_after_one =
     [example_file_row ''util'' 1 ''1970-01-01 01:00:00'',
      example_file_row ''core'' 1 ''1970-01-01 01:00:00''] \<and>
   map File (metrics_by_file example_after_one) = [''util'', ''core'']"
proof -
  have log: "commit_log example_repo = example_head # [example_first]"
    by (simp add: example_repo_def)
  have stems: "map file_stem (filter (contributes example_repo example_head) (tree_traverse example_head)) =
     [''util'', ''core'']"
    by (simp add: contributes_def example_defs walk_defs)
  have d: "distinct (map file_stem (filter (contributes example_repo example_head) (tree_traverse example_head)))"
    unfolding stems by simp
  from current_files_table[OF example_git_Repo(1) log example_reads(1) d example_run]
  have "map File (metrics_by_file example_after_one) = [''util'', ''core'']"
    unfolding stems by (rule conjunct2)
  with example_git_Repo(1) log example_reads(1) stems example_run show ?thesis
    by (simp add: example_after_one_def)
qed

end
